theory Spec2Isabelle
  imports Complex_Main
begin

section \<open>Data model of the voxel engine\<close>

text \<open>
  The embedding follows \<^verbatim>\<open>src/services/VoxelEngine.ts\<close>. A JavaScript number is
  idealised as a \<^typ>\<open>real\<close> (no rounding error, no NaN, no infinities); an array index
  and a slot identity is a \<^typ>\<open>nat\<close>; \<^verbatim>\<open>Date.now()\<close> is an \<^typ>\<open>int\<close>
  handed to the operation that reads the clock.

  The declarations of \<^verbatim>\<open>../types\<close> (AppState, SimulationVoxel, RebuildTarget,
  VoxelData) are not part of the sources; the records below are read off the fields the
  engine uses. The three structures share the coordinate fields, so they extend one
  record of coordinates.
\<close>

datatype AppState = STABLE | DISMANTLING | REBUILDING

text \<open>A \<^verbatim>\<open>THREE.Color\<close>: three channels.\<close>

record Color =
  cr :: real
  cg :: real
  cb :: real

record Vec3 =
  x :: real
  y :: real
  z :: real

text \<open>\<^verbatim>\<open>VoxelData\<close>: a coordinate and a colour given as a hex number.\<close>

record VoxelData = Vec3 +
  hex :: nat

text \<open>
  \<^verbatim>\<open>RebuildTarget\<close>: the optional field \<^verbatim>\<open>isRubble\<close> is absent (falsy) on a
  matched entry, which is \<open>False\<close> here.
\<close>

record RebuildTarget = Vec3 +
  delay :: real
  isRubble :: bool

text \<open>\<^verbatim>\<open>SimulationVoxel\<close>; the field \<^verbatim>\<open>id\<close> is \<open>vid\<close>.\<close>

record SimulationVoxel = Vec3 +
  vid :: nat
  color :: Color
  vx :: real
  vy :: real
  vz :: real
  rx :: real
  ry :: real
  rz :: real
  rvx :: real
  rvy :: real
  rvz :: real
  isFalling :: bool
  grounded :: bool

text \<open>
  What the engine takes from its host: the stream of values \<^verbatim>\<open>Math.random()\<close>
  returns (the engine state counts how many were drawn), the conversion
  \<^verbatim>\<open>new THREE.Color(hex)\<close> and the lightness shift \<^verbatim>\<open>Color.offsetHSL(0, 0, l)\<close>.
\<close>

record Host =
  random :: "nat \<Rightarrow> real"
  toColor :: "nat \<Rightarrow> Color"
  offsetL :: "Color \<Rightarrow> real \<Rightarrow> Color"

text \<open>
  The mutable fields of the class that the simulation reads or writes.
  \<open>rebuildTargets\<close> holds \<open>None\<close> where the JavaScript array holds \<^verbatim>\<open>null\<close>;
  \<open>hasMesh\<close> says that \<^verbatim>\<open>instanceMesh\<close> is not null; \<open>stateLog\<close> and
  \<open>countLog\<close> list the calls of the callbacks \<^verbatim>\<open>onStateChange\<close> and
  \<^verbatim>\<open>onCountChange\<close>, oldest first; \<open>drawn\<close> is the number of random values drawn.
\<close>

record Engine =
  voxels :: "SimulationVoxel list"
  rebuildTargets :: "RebuildTarget option list"
  rebuildStartTime :: int
  state :: AppState
  hasMesh :: bool
  stateLog :: "AppState list"
  countLog :: "nat list"
  drawn :: nat

definition FLOOR_Y :: real where
  "FLOOR_Y = -12"

text \<open>
  A property read on \<^verbatim>\<open>undefined\<close> or \<^verbatim>\<open>null\<close> throws a TypeError. An operation
  that can throw returns an option, \<open>None\<close> for the throw; the state the throw leaves
  behind is not tracked.
\<close>

fun forEachM :: "('a \<Rightarrow> 's \<Rightarrow> 's option) \<Rightarrow> 'a list \<Rightarrow> 's \<Rightarrow> 's option" where
  "forEachM f [] s = Some s"
| "forEachM f (a # as) s = (case f a s of None \<Rightarrow> None | Some s' \<Rightarrow> forEachM f as s')"

text \<open>Reading and writing a JavaScript array: a read out of range gives
  \<^verbatim>\<open>undefined\<close>, a write out of range extends the array with holes.\<close>

definition getAt :: "'a option list \<Rightarrow> nat \<Rightarrow> 'a option" where
  "getAt xs i = (if i < length xs then xs ! i else None)"

definition setAt :: "'a option list \<Rightarrow> nat \<Rightarrow> 'a \<Rightarrow> 'a option list" where
  "setAt xs i v = (if i < length xs then xs[i := Some v]
                   else xs @ replicate (i - length xs) None @ [Some v])"

section \<open>triggerFalling\<close>

text \<open>
  The assignments of \<^verbatim>\<open>triggerFalling\<close> to a voxel that is not falling yet, when
  \<open>n\<close> random values have been drawn before.
\<close>

definition kick :: "Host \<Rightarrow> nat \<Rightarrow> SimulationVoxel \<Rightarrow> SimulationVoxel" where
  "kick H n v = v\<lparr>isFalling := True,
                  grounded := False,
                  vx := (random H n - 0.5) * 0.5,
                  vy := random H (n + 1) * 0.3,
                  vz := (random H (n + 2) - 0.5) * 0.5,
                  rvx := (random H (n + 3) - 0.5) * 0.3,
                  rvy := (random H (n + 4) - 0.5) * 0.3,
                  rvz := (random H (n + 5) - 0.5) * 0.3\<rparr>"

definition triggerFalling :: "Host \<Rightarrow> nat \<Rightarrow> Engine \<Rightarrow> Engine option" where
  "triggerFalling H idx s =
     (if idx < length (voxels s) then
        (let v = voxels s ! idx in
         if isFalling v then Some s
         else Some (s\<lparr>voxels := (voxels s)[idx := kick H (drawn s) v], drawn := drawn s + 6\<rparr>))
      else None)"

section \<open>updatePhysics\<close>

text \<open>
  The body of the loop over the voxels when the engine is not rebuilding, in the order of
  its statements: gravity, the integration of position and rotation, and below the floor
  plane the bounce followed by the rest detection.
\<close>

definition gravity :: "SimulationVoxel \<Rightarrow> SimulationVoxel" where
  "gravity v = v\<lparr>vy := vy v - 0.052\<rparr>"

definition integrate :: "SimulationVoxel \<Rightarrow> SimulationVoxel" where
  "integrate v = v\<lparr>x := x v + vx v, y := y v + vy v, z := z v + vz v,
                   rx := rx v + rvx v, ry := ry v + rvy v, rz := rz v + rvz v\<rparr>"

definition bounce :: "SimulationVoxel \<Rightarrow> SimulationVoxel" where
  "bounce v = v\<lparr>y := FLOOR_Y + 0.5,
                vy := vy v * (- 0.42),
                vx := vx v * 0.75,
                vz := vz v * 0.75,
                rvx := rvx v * 0.65,
                rvy := rvy v * 0.65,
                rvz := rvz v * 0.65\<rparr>"

definition rest :: "SimulationVoxel \<Rightarrow> SimulationVoxel" where
  "rest v = (if \<bar>vy v\<bar> < 0.05 \<and> \<bar>vx v\<bar> < 0.05 \<and> \<bar>vz v\<bar> < 0.05
             then v\<lparr>vx := 0, vz := 0, vy := 0, rvx := 0, rvy := 0, rvz := 0\<rparr>
             else v)"

definition fallStep :: "SimulationVoxel \<Rightarrow> SimulationVoxel" where
  "fallStep v =
     (if isFalling v then
        (let w = integrate (gravity v)
         in if y w < FLOOR_Y + 0.5 then rest (bounce w) else w)
      else v)"

text \<open>
  The body of the loop over the voxels while rebuilding, for slot \<open>i\<close>: the pair is
  the array of voxels and the flag \<^verbatim>\<open>allDone\<close>.
\<close>

definition ease :: "RebuildTarget \<Rightarrow> SimulationVoxel \<Rightarrow> SimulationVoxel" where
  "ease t v =
     (let speed = 0.12
      in v\<lparr>x := x v + (x t - x v) * speed,
           y := y v + (y t - y v) * speed,
           z := z v + (z t - z v) * speed,
           rx := rx v + (0 - rx v) * speed,
           ry := ry v + (0 - ry v) * speed,
           rz := rz v + (0 - rz v) * speed\<rparr>)"

definition arrive :: "RebuildTarget \<Rightarrow> SimulationVoxel \<Rightarrow> SimulationVoxel" where
  "arrive t v = v\<lparr>x := x t, y := y t, z := z t,
                  rx := 0, ry := 0, rz := 0,
                  isFalling := False, grounded := True,
                  vx := 0, vy := 0, vz := 0\<rparr>"

definition easeStep :: "int \<Rightarrow> RebuildTarget option list \<Rightarrow> nat \<Rightarrow>
    SimulationVoxel list \<times> bool \<Rightarrow> (SimulationVoxel list \<times> bool) option" where
  "easeStep elapsed targets i = (\<lambda>(vs, allDone).
     (case getAt targets i of
        None \<Rightarrow> None
      | Some t \<Rightarrow>
          if isRubble t then Some (vs, allDone)
          else if of_int elapsed < delay t then Some (vs, False)
          else
            (let v = ease t (vs ! i)
             in if (x t - x v)\<^sup>2 + (y t - y v)\<^sup>2 + (z t - z v)\<^sup>2 > 0.01
                then Some (vs[i := v], False)
                else Some (vs[i := arrive t v], allDone))))"

definition updatePhysics :: "int \<Rightarrow> Engine \<Rightarrow> Engine option" where
  "updatePhysics now s =
     (if state s = REBUILDING then
        (let elapsed = now - rebuildStartTime s in
         case forEachM (easeStep elapsed (rebuildTargets s)) [0..<length (voxels s)]
                (voxels s, True) of
           None \<Rightarrow> None
         | Some (vs, allDone) \<Rightarrow>
             if allDone
             then Some (s\<lparr>voxels := vs, state := STABLE, stateLog := stateLog s @ [STABLE]\<rparr>)
             else Some (s\<lparr>voxels := vs\<rparr>))
      else Some (s\<lparr>voxels := map fallStep (voxels s)\<rparr>))"

section \<open>checkStructuralIntegrity\<close>

text \<open>
  \<^verbatim>\<open>Math.round\<close> rounds to the nearest integer, a half upwards. The key of the grid
  map is the text \<^verbatim>\<open>`${a},${b},${c}`\<close> of three integers, which determines the
  three integers: the key is the triple.
\<close>

definition js_round :: "real \<Rightarrow> int" where
  "js_round a = \<lfloor>a + 1 / 2\<rfloor>"

type_synonym cell = "int \<times> int \<times> int"

definition cellOf :: "SimulationVoxel \<Rightarrow> cell" where
  "cellOf v = (js_round (x v), js_round (y v), js_round (z v))"

definition neighbors :: "cell list" where
  "neighbors = [(1, 0, 0), (- 1, 0, 0), (0, 1, 0), (0, - 1, 0), (0, 0, 1), (0, 0, - 1)]"

text \<open>Second loop: the ground anchors are marked and queued.\<close>

definition anchorStep :: "nat \<Rightarrow> SimulationVoxel list \<times> nat list \<Rightarrow>
    SimulationVoxel list \<times> nat list" where
  "anchorStep i = (\<lambda>(vs, queue).
     (let v = vs ! i in
      if \<not> isFalling v \<and> y v \<le> FLOOR_Y + 1.2
      then (vs[i := v\<lparr>grounded := True\<rparr>], queue @ [i])
      else (vs, queue)))"

text \<open>Third loop: the grid map; a later voxel of a cell replaces an earlier one.\<close>

definition mapStep :: "SimulationVoxel list \<Rightarrow> nat \<Rightarrow> (cell \<rightharpoonup> nat) \<Rightarrow> (cell \<rightharpoonup> nat)" where
  "mapStep vs i voxelMap =
     (let v = vs ! i in
      if \<not> isFalling v then voxelMap(cellOf v \<mapsto> i) else voxelMap)"

text \<open>The body of the loop over the six neighbours of the voxel \<open>v\<close>.\<close>

definition visit :: "(cell \<rightharpoonup> nat) \<Rightarrow> SimulationVoxel \<Rightarrow> cell \<Rightarrow>
    SimulationVoxel list \<times> nat list \<Rightarrow> (SimulationVoxel list \<times> nat list) option" where
  "visit voxelMap v = (\<lambda>(dx, dy, dz) (vs, queue).
     (let nx = js_round (x v) + dx;
          ny = js_round (y v) + dy;
          nz = js_round (z v) + dz
      in case voxelMap (nx, ny, nz) of
           None \<Rightarrow> Some (vs, queue)
         | Some neighborIdx \<Rightarrow>
             if neighborIdx < length vs then
               (let nv = vs ! neighborIdx in
                if \<not> isFalling nv \<and> \<not> grounded nv
                then Some (vs[neighborIdx := nv\<lparr>grounded := True\<rparr>], queue @ [neighborIdx])
                else Some (vs, queue))
             else None))"

text \<open>The voxels that are not marked grounded: what the traversal can still mark.\<close>

definition unmarked :: "SimulationVoxel list \<Rightarrow> nat set" where
  "unmarked vs = {i. i < length vs \<and> \<not> grounded (vs ! i)}"

lemma finite_unmarked: "finite (unmarked vs)"
  by (simp add: unmarked_def)

lemma visit_measure:
  assumes "visit m v d (vs, q) = Some (vs', q')"
  shows "card (unmarked vs') + length q' = card (unmarked vs) + length q \<and> length q \<le> length q'"
proof -
  obtain dx dy dz where d: "d = (dx, dy, dz)" by (cases d) auto
  show ?thesis
  proof (cases "m (js_round (x v) + dx, js_round (y v) + dy, js_round (z v) + dz)")
    case None
    with assms d show ?thesis by (simp add: visit_def)
  next
    case (Some ni)
    show ?thesis
    proof (cases "ni < length vs \<and> \<not> isFalling (vs ! ni) \<and> \<not> grounded (vs ! ni)")
      case False
      with assms d Some show ?thesis
        by (auto simp: visit_def Let_def split: if_splits)
    next
      case True
      with assms d Some have vs': "vs' = vs[ni := (vs ! ni)\<lparr>grounded := True\<rparr>]" and q': "q' = q @ [ni]"
        by (auto simp: visit_def Let_def)
      have mem: "ni \<in> unmarked vs" using True by (simp add: unmarked_def)
      have "unmarked vs' = unmarked vs - {ni}"
        using True unfolding vs' unmarked_def by (auto simp: nth_list_update)
      then have "card (unmarked vs') = card (unmarked vs) - 1"
        using mem by (simp add: finite_unmarked)
      moreover have "0 < card (unmarked vs)"
        using mem finite_unmarked [of vs] by (auto simp: card_gt_0_iff)
      ultimately show ?thesis using q' by simp
    qed
  qed
qed

lemma visits_measure:
  "forEachM (visit m v) ds (vs, q) = Some (vs', q') \<Longrightarrow>
   card (unmarked vs') + length q' = card (unmarked vs) + length q \<and> length q \<le> length q'"
proof (induction ds arbitrary: vs q)
  case Nil
  then show ?case by simp
next
  case (Cons d ds)
  then obtain vs1 q1 where a: "visit m v d (vs, q) = Some (vs1, q1)"
    and b: "forEachM (visit m v) ds (vs1, q1) = Some (vs', q')"
    by (auto split: option.splits)
  from visit_measure [OF a] Cons.IH [OF b] show ?case by simp
qed

text \<open>
  The traversal: \<^verbatim>\<open>while (head < queue.length)\<close>. It ends because every voxel pushed
  was unmarked before and is marked afterwards.
\<close>

function bfs :: "(cell \<rightharpoonup> nat) \<Rightarrow> SimulationVoxel list \<Rightarrow> nat list \<Rightarrow> nat \<Rightarrow>
    SimulationVoxel list option" where
  "bfs voxelMap vs queue head =
     (if head < length queue then
        (let currentIdx = queue ! head in
         if currentIdx < length vs then
           (case forEachM (visit voxelMap (vs ! currentIdx)) neighbors (vs, queue) of
              None \<Rightarrow> None
            | Some (vs', queue') \<Rightarrow> bfs voxelMap vs' queue' (head + 1))
         else None)
      else Some vs)"
  by pat_completeness auto

termination
proof (relation "measure (\<lambda>(m, vs, q, h). card (unmarked vs) + (length q - h))", goal_cases)
  case 1
  show ?case by simp
next
  case (2 voxelMap vs queue head currentIdx r vs' queue')
  then have "forEachM (visit voxelMap (vs ! (queue ! head))) neighbors (vs, queue) = Some (vs', queue')"
    by simp
  from visits_measure [OF this] 2(1) show ?case by simp
qed

declare bfs.simps [simp del]

text \<open>Last loop: every resting voxel left unmarked starts to fall.\<close>

definition dropStep :: "Host \<Rightarrow> nat \<Rightarrow> Engine \<Rightarrow> Engine option" where
  "dropStep H i s =
     (let v = voxels s ! i in
      if \<not> isFalling v \<and> \<not> grounded v then triggerFalling H i s else Some s)"

definition checkStructuralIntegrity :: "Host \<Rightarrow> Engine \<Rightarrow> Engine option" where
  "checkStructuralIntegrity H s =
     (let vs1 = map (\<lambda>v. v\<lparr>grounded := False\<rparr>) (voxels s);
          (vs2, queue) = fold anchorStep [0..<length vs1] (vs1, []);
          voxelMap = fold (mapStep vs2) [0..<length vs2] Map.empty
      in case bfs voxelMap vs2 queue 0 of
           None \<Rightarrow> None
         | Some vs3 \<Rightarrow> forEachM (dropStep H) [0..<length vs3] (s\<lparr>voxels := vs3\<rparr>))"

section \<open>Loading, clicking, dismantling\<close>

definition createVoxels :: "Host \<Rightarrow> VoxelData list \<Rightarrow> Engine \<Rightarrow> Engine" where
  "createVoxels H data s =
     s\<lparr>voxels := map (\<lambda>(i, v).
           \<lparr>x = x v, y = y v, z = z v, vid = i,
            color = offsetL H (toColor H (hex v)) (random H (drawn s + i) * 0.04 - 0.02),
            vx = 0, vy = 0, vz = 0, rx = 0, ry = 0, rz = 0,
            rvx = 0, rvy = 0, rvz = 0,
            isFalling = False, grounded = True\<rparr>) (enumerate 0 data),
       hasMesh := True,
       drawn := drawn s + length data\<rparr>"

definition loadInitialModel :: "Host \<Rightarrow> VoxelData list \<Rightarrow> Engine \<Rightarrow> Engine" where
  "loadInitialModel H data s =
     (let s1 = createVoxels H data s;
          s2 = s1\<lparr>countLog := countLog s1 @ [length (voxels s1)]\<rparr>
      in s2\<lparr>state := STABLE, stateLog := stateLog s2 @ [STABLE]\<rparr>)"

text \<open>
  \<^verbatim>\<open>onMouseClick\<close>: the ray cast belongs to the renderer; \<open>hit\<close> is the instance it
  returns, if any.
\<close>

definition onMouseClick :: "Host \<Rightarrow> nat option \<Rightarrow> Engine \<Rightarrow> Engine option" where
  "onMouseClick H hit s =
     (if state s \<noteq> STABLE \<or> \<not> hasMesh s then Some s
      else case hit of
             None \<Rightarrow> Some s
           | Some instanceId \<Rightarrow>
               (case triggerFalling H instanceId s of
                  None \<Rightarrow> None
                | Some s' \<Rightarrow> checkStructuralIntegrity H s'))"

definition scatterStep :: "Host \<Rightarrow> nat \<Rightarrow> Engine \<Rightarrow> Engine option" where
  "scatterStep H i s =
     (case triggerFalling H (vid (voxels s ! i)) s of
        None \<Rightarrow> None
      | Some s' \<Rightarrow>
          (let n = drawn s' in
           Some (s'\<lparr>voxels := (voxels s')[i := (voxels s' ! i)\<lparr>
                        vx := (random H n - 0.5) * 1.6,
                        vy := random H (n + 1) * 1.4,
                        vz := (random H (n + 2) - 0.5) * 1.6\<rparr>],
                    drawn := n + 3\<rparr>)))"

definition dismantle :: "Host \<Rightarrow> Engine \<Rightarrow> Engine option" where
  "dismantle H s =
     (if state s \<noteq> STABLE then Some s
      else forEachM (scatterStep H) [0..<length (voxels s)]
             (s\<lparr>state := DISMANTLING, stateLog := stateLog s @ [DISMANTLING]\<rparr>))"

section \<open>rebuild\<close>

definition getColorDist :: "Host \<Rightarrow> Color \<Rightarrow> nat \<Rightarrow> real" where
  "getColorDist H c1 hex2 =
     (let c2 = toColor H hex2;
          r = (cr c1 - cr c2) * 0.3;
          g = (cg c1 - cg c2) * 0.59;
          b = (cb c1 - cb c2) * 0.11
      in sqrt (r * r + g * g + b * b))"

text \<open>An entry of the pool \<^verbatim>\<open>available\<close>; its field \<^verbatim>\<open>color\<close> is \<open>pcolor\<close>.\<close>

record Avail =
  index :: nat
  pcolor :: Color
  taken :: bool

text \<open>
  The scan of the pool for one target colour, from position \<open>i\<close> on, with the running
  \<^verbatim>\<open>bestDist\<close> and \<^verbatim>\<open>bestIdx\<close>; the result is the final \<^verbatim>\<open>bestIdx\<close>.
\<close>

function scanPool :: "Host \<Rightarrow> Avail list \<Rightarrow> nat \<Rightarrow> nat \<Rightarrow> real \<Rightarrow> int \<Rightarrow> int" where
  "scanPool H available hex2 i bestDist bestIdx =
     (if i < length available then
        (if taken (available ! i) then scanPool H available hex2 (i + 1) bestDist bestIdx
         else
           (let d = getColorDist H (pcolor (available ! i)) hex2 in
            if d < bestDist then
              (if d < 0.01 then int i
               else scanPool H available hex2 (i + 1) d (int i))
            else scanPool H available hex2 (i + 1) bestDist bestIdx))
      else bestIdx)"
  by pat_completeness auto

termination
  by (relation "measure (\<lambda>(H, available, hex2, i, bestDist, bestIdx). length available - i)") auto

declare scanPool.simps [simp del]

text \<open>The body of the loop over the targets.\<close>

definition assignTarget :: "Host \<Rightarrow> VoxelData \<Rightarrow> Avail list \<times> RebuildTarget option list \<Rightarrow>
    Avail list \<times> RebuildTarget option list" where
  "assignTarget H target = (\<lambda>(available, mappings).
     (let bestIdx = scanPool H available (hex target) 0 9999 (- 1) in
      if bestIdx \<noteq> - 1 then
        (let k = nat bestIdx;
             available' = available[k := (available ! k)\<lparr>taken := True\<rparr>];
             h = max 0 ((y target - FLOOR_Y) / 15)
         in (available',
             setAt mappings (index (available' ! k))
               \<lparr>x = x target, y = y target, z = z target, delay = h * 800, isRubble = False\<rparr>))
      else (available, mappings)))"

text \<open>The body of the closing loop: a slot without a mapping becomes rubble.\<close>

definition rubbleStep :: "SimulationVoxel list \<Rightarrow> nat \<Rightarrow> RebuildTarget option list \<Rightarrow>
    RebuildTarget option list" where
  "rubbleStep vs i mappings =
     (case getAt mappings i of
        None \<Rightarrow> setAt mappings i
                 \<lparr>x = x (vs ! i), y = y (vs ! i), z = z (vs ! i), delay = 0, isRubble = True\<rparr>
      | Some t \<Rightarrow> mappings)"

definition plan :: "Host \<Rightarrow> SimulationVoxel list \<Rightarrow> VoxelData list \<Rightarrow> RebuildTarget option list" where
  "plan H vs targetModel =
     (let available = map (\<lambda>(i, v). \<lparr>index = i, pcolor = color v, taken = False\<rparr>) (enumerate 0 vs);
          mappings = replicate (length vs) None;
          (available', mappings') = fold (assignTarget H) targetModel (available, mappings)
      in fold (rubbleStep vs) [0..<length vs] mappings')"

definition rebuild :: "Host \<Rightarrow> VoxelData list \<Rightarrow> int \<Rightarrow> Engine \<Rightarrow> Engine" where
  "rebuild H targetModel now s =
     (let s1 = s\<lparr>state := REBUILDING, stateLog := stateLog s @ [REBUILDING]\<rparr>
      in s1\<lparr>rebuildTargets := plan H (voxels s1) targetModel, rebuildStartTime := now\<rparr>)"

section \<open>Notions for stating the properties\<close>

text \<open>No slot below the number of voxels has a null assignment.\<close>

definition assigned :: "Engine \<Rightarrow> bool" where
  "assigned s = list_all (\<lambda>i. getAt (rebuildTargets s) i \<noteq> None) [0..<length (voxels s)]"

text \<open>A run of physics steps, at the given clock readings.\<close>

definition run :: "int list \<Rightarrow> Engine \<Rightarrow> Engine option" where
  "run nows s = forEachM updatePhysics nows s"

text \<open>The two kinds of assignment the planner writes.\<close>

definition rubbleAt :: "SimulationVoxel \<Rightarrow> RebuildTarget" where
  "rubbleAt v = \<lparr>x = x v, y = y v, z = z v, delay = 0, isRubble = True\<rparr>"

definition slotFor :: "VoxelData \<Rightarrow> RebuildTarget" where
  "slotFor target = \<lparr>x = x target, y = y target, z = z target,
     delay = max 0 ((y target - FLOOR_Y) / 15) * 800, isRubble = False\<rparr>"

text \<open>The pool \<^verbatim>\<open>available\<close> as \<open>rebuild\<close> builds it.\<close>

definition pool :: "SimulationVoxel list \<Rightarrow> Avail list" where
  "pool vs = map (\<lambda>(i, v). \<lparr>index = i, pcolor = color v, taken = False\<rparr>) (enumerate 0 vs)"

text \<open>
  The entry \<open>k\<close> is the one the scan for the colour \<open>hex2\<close> settles on: it is not taken,
  every untaken entry before it is farther away and not within 0.01, and it is either
  within 0.01 itself (the scan stops there) or no untaken entry is nearer.
\<close>

definition chosen :: "Host \<Rightarrow> Avail list \<Rightarrow> nat \<Rightarrow> nat \<Rightarrow> bool" where
  "chosen H available hex2 k =
     (k < length available \<and> \<not> taken (available ! k) \<and>
      getColorDist H (pcolor (available ! k)) hex2 < 9999 \<and>
      (\<forall>j<k. \<not> taken (available ! j) \<longrightarrow>
         0.01 \<le> getColorDist H (pcolor (available ! j)) hex2 \<and>
         getColorDist H (pcolor (available ! k)) hex2 < getColorDist H (pcolor (available ! j)) hex2) \<and>
      (getColorDist H (pcolor (available ! k)) hex2 < 0.01 \<or>
       (\<forall>j<length available. \<not> taken (available ! j) \<longrightarrow>
          getColorDist H (pcolor (available ! k)) hex2 \<le> getColorDist H (pcolor (available ! j)) hex2)))"

text \<open>
  What holds of the pool and the mappings of the voxels \<open>vs\<close> while targets of the set
  \<open>T\<close> are served: entry \<open>i\<close> stands for slot \<open>i\<close>, it is taken exactly when the slot
  has a mapping, and a mapping is that of a target.
\<close>

definition poolInv :: "SimulationVoxel list \<Rightarrow> VoxelData set \<Rightarrow>
    Avail list \<times> RebuildTarget option list \<Rightarrow> bool" where
  "poolInv vs T = (\<lambda>(av, ms).
     length av = length vs \<and> length ms = length vs \<and>
     (\<forall>i<length vs. index (av ! i) = i \<and> pcolor (av ! i) = color (vs ! i) \<and>
        (taken (av ! i) \<longleftrightarrow> ms ! i \<noteq> None) \<and>
        (\<forall>t. ms ! i = Some t \<longrightarrow> t \<in> slotFor ` T)))"

text \<open>The untaken entries of a pool.\<close>

definition free :: "Avail list \<Rightarrow> nat set" where
  "free av = {i. i < length av \<and> \<not> taken (av ! i)}"

text \<open>The pool and the mappings after the loop over the targets.\<close>

definition matching :: "Host \<Rightarrow> SimulationVoxel list \<Rightarrow> VoxelData list \<Rightarrow>
    Avail list \<times> RebuildTarget option list" where
  "matching H vs ts = fold (assignTarget H) ts (pool vs, replicate (length vs) None)"

text \<open>A colour whose channels lie between 0 and 1, as those of \<^verbatim>\<open>THREE.Color\<close> do.\<close>

definition inGamut :: "Color \<Rightarrow> bool" where
  "inGamut c = (0 \<le> cr c \<and> cr c \<le> 1 \<and> 0 \<le> cg c \<and> cg c \<le> 1 \<and> 0 \<le> cb c \<and> cb c \<le> 1)"

text \<open>
  What the rebuild step asks of a matched voxel before it leaves \<^verbatim>\<open>allDone\<close>
  standing: the delay has passed and the eased position is within 0.1 of the target.
\<close>

definition settled :: "int \<Rightarrow> RebuildTarget \<Rightarrow> SimulationVoxel \<Rightarrow> bool" where
  "settled elapsed t v =
     (\<not> of_int elapsed < delay t \<and>
      \<not> (x t - x (ease t v))\<^sup>2 + (y t - y (ease t v))\<^sup>2 + (z t - z (ease t v))\<^sup>2 > 0.01)"

text \<open>
  An assignment as the data model has it: a target position with its delay, or nothing
  for rubble (the position the code stores in a rubble entry is never read).
\<close>

definition assignmentOf :: "RebuildTarget option \<Rightarrow> (real \<times> real \<times> real \<times> real) option" where
  "assignmentOf m = (case m of None \<Rightarrow> None
     | Some t \<Rightarrow> if isRubble t then None else Some (x t, y t, z t, delay t))"

text \<open>An entry of the assignments that is marked rubble.\<close>

definition marksRubble :: "RebuildTarget option \<Rightarrow> bool" where
  "marksRubble m = (case m of None \<Rightarrow> False | Some t \<Rightarrow> isRubble t)"

text \<open>
  The first loop of the integrity pass, the test for a ground anchor, the grid map of the
  third loop, and the cell next to a cell in a direction.
\<close>

definition clear :: "SimulationVoxel list \<Rightarrow> SimulationVoxel list" where
  "clear vs = map (\<lambda>v. v\<lparr>grounded := False\<rparr>) vs"

definition anchor :: "SimulationVoxel \<Rightarrow> bool" where
  "anchor v = (\<not> isFalling v \<and> y v \<le> FLOOR_Y + 1.2)"

definition gridMap :: "SimulationVoxel list \<Rightarrow> (cell \<rightharpoonup> nat)" where
  "gridMap vs = fold (mapStep vs) [0..<length vs] Map.empty"

fun shift :: "cell \<Rightarrow> cell \<Rightarrow> cell" where
  "shift (a, b, c) (dx, dy, dz) = (a + dx, b + dy, c + dz)"

text \<open>
  The voxels the traversal reaches: the ground anchors, and every voxel that the grid map
  holds for a cell next to the cell of a voxel reached.
\<close>

inductive supported :: "SimulationVoxel list \<Rightarrow> nat \<Rightarrow> bool" for vs where
  anchored: "i < length vs \<Longrightarrow> anchor (vs ! i) \<Longrightarrow> supported vs i"
| carried: "supported vs j \<Longrightarrow> d \<in> set neighbors \<Longrightarrow>
            gridMap vs (shift (cellOf (vs ! j)) d) = Some i \<Longrightarrow> supported vs i"

text \<open>
  What holds of the marks and of the queue throughout the traversal of the voxels \<open>vs0\<close>:
  only marks have changed; the queue holds reached voxels; a marked voxel is at rest, queued
  and reached; every anchor is marked.
\<close>

definition marking :: "SimulationVoxel list \<Rightarrow> SimulationVoxel list \<Rightarrow> nat list \<Rightarrow> bool" where
  "marking vs0 vs q =
     (clear vs = clear vs0 \<and>
      (\<forall>i \<in> set q. i < length vs0 \<and> supported vs0 i) \<and>
      (\<forall>i<length vs0. grounded (vs ! i) \<longrightarrow> \<not> isFalling (vs0 ! i) \<and> i \<in> set q) \<and>
      (\<forall>i<length vs0. anchor (vs0 ! i) \<longrightarrow> grounded (vs ! i)))"

text \<open>A voxel the last loop of the pass makes fall.\<close>

definition loose :: "SimulationVoxel \<Rightarrow> bool" where
  "loose v = (\<not> isFalling v \<and> \<not> grounded v)"

text \<open>The number of resting, unsupported voxels in the slots before \<open>i\<close>.\<close>

definition unsupportedBefore :: "SimulationVoxel list \<Rightarrow> nat \<Rightarrow> nat" where
  "unsupportedBefore vs i =
     length (filter (\<lambda>j. \<not> isFalling (vs ! j) \<and> \<not> supported vs j) [0..<i])"

text \<open>What the pass makes of the voxel in slot \<open>i\<close>.\<close>

definition settle :: "Host \<Rightarrow> Engine \<Rightarrow> nat \<Rightarrow> SimulationVoxel" where
  "settle H s i =
     (let v = voxels s ! i in
      if isFalling v then v\<lparr>grounded := False\<rparr>
      else if supported (voxels s) i then v\<lparr>grounded := True\<rparr>
      else kick H (drawn s + 6 * unsupportedBefore (voxels s) i) v)"

text \<open>
  Reachability on the grid of the resting voxels: a ground anchor, or a resting voxel whose
  cell is one of the six cells next to the cell of a connected voxel.
\<close>

inductive connected :: "SimulationVoxel list \<Rightarrow> nat \<Rightarrow> bool" for vs where
  ground: "i < length vs \<Longrightarrow> anchor (vs ! i) \<Longrightarrow> connected vs i"
| link: "connected vs j \<Longrightarrow> i < length vs \<Longrightarrow> \<not> isFalling (vs ! i) \<Longrightarrow> d \<in> set neighbors \<Longrightarrow>
         cellOf (vs ! i) = shift (cellOf (vs ! j)) d \<Longrightarrow> connected vs i"

text \<open>The two flags of a voxel are not both set.\<close>

definition consistent :: "SimulationVoxel \<Rightarrow> bool" where
  "consistent v = (\<not> (isFalling v \<and> grounded v))"

text \<open>
  What the engine keeps true of itself: the identity of a voxel is its slot, and while it
  rebuilds every slot has an assignment.
\<close>

definition wellFormed :: "Engine \<Rightarrow> bool" where
  "wellFormed s =
     ((\<forall>i<length (voxels s). vid (voxels s ! i) = i) \<and> (state s = REBUILDING \<longrightarrow> assigned s))"

text \<open>A well-formed engine none of whose voxels has both flags set.\<close>

definition good :: "Engine \<Rightarrow> bool" where
  "good s = (wellFormed s \<and> (\<forall>i<length (voxels s). consistent (voxels s ! i)))"

text \<open>The entry points of the engine, and what its host may do with them.\<close>

datatype command =
    TriggerFalling nat
  | CheckStructuralIntegrity
  | Dismantle
  | Rebuild "VoxelData list" int
  | UpdatePhysics int
  | LoadInitialModel "VoxelData list"
  | MouseClick "nat option"

fun exec :: "Host \<Rightarrow> command \<Rightarrow> Engine \<Rightarrow> Engine option" where
  "exec H (TriggerFalling i) s = triggerFalling H i s"
| "exec H CheckStructuralIntegrity s = checkStructuralIntegrity H s"
| "exec H Dismantle s = dismantle H s"
| "exec H (Rebuild ts now) s = Some (rebuild H ts now s)"
| "exec H (UpdatePhysics now) s = updatePhysics now s"
| "exec H (LoadInitialModel d) s = Some (loadInitialModel H d s)"
| "exec H (MouseClick hit) s = onMouseClick H hit s"

text \<open>
  A list of commands is allowed for \<open>n\<close> voxels when every slot it names exists at the
  time: a ray cast hits an instance of the mesh, and \<^verbatim>\<open>triggerFalling\<close> is private and
  called with slots of the array.
\<close>

fun allowed :: "nat \<Rightarrow> command list \<Rightarrow> bool" where
  "allowed n [] = True"
| "allowed n (TriggerFalling i # cs) = (i < n \<and> allowed n cs)"
| "allowed n (MouseClick (Some i) # cs) = (i < n \<and> allowed n cs)"
| "allowed n (LoadInitialModel d # cs) = allowed (length d) cs"
| "allowed n (c # cs) = allowed n cs"

section \<open>Example configurations\<close>

text \<open>
  A black voxel at rest, an engine around an array of voxels, three falling voxels (in
  flight with little speed, about to land slowly, about to land fast), a host whose colour
  conversion splits the hex number into its three bytes, and a target.
\<close>

definition cube :: "nat \<Rightarrow> real \<Rightarrow> real \<Rightarrow> real \<Rightarrow> SimulationVoxel" where
  "cube i a b c = \<lparr>x = a, y = b, z = c, vid = i, color = \<lparr>cr = 0, cg = 0, cb = 0\<rparr>,
     vx = 0, vy = 0, vz = 0, rx = 0, ry = 0, rz = 0, rvx = 0, rvy = 0, rvz = 0,
     isFalling = False, grounded = True\<rparr>"

definition engineOf :: "SimulationVoxel list \<Rightarrow> Engine" where
  "engineOf vs = \<lparr>voxels = vs, rebuildTargets = [], rebuildStartTime = 0, state = STABLE,
     hasMesh = True, stateLog = [], countLog = [], drawn = 0\<rparr>"

definition airborne :: SimulationVoxel where
  "airborne = (cube 0 0 0 0)\<lparr>vy := 0.052, rvx := 0.1, isFalling := True, grounded := False\<rparr>"

definition landing :: SimulationVoxel where
  "landing = (cube 0 0 (- 11.5) 0)\<lparr>vy := - 0.01, rvx := 0.1, isFalling := True, grounded := False\<rparr>"

definition bouncing :: SimulationVoxel where
  "bouncing = (cube 0 0 (- 11) 0)\<lparr>vx := 1, vy := - 1, vz := 2, rvx := 0.1, rvy := 0.2, rvz := 0.3,
     isFalling := True, grounded := False\<rparr>"

definition hexRGB :: "nat \<Rightarrow> Color" where
  "hexRGB h = \<lparr>cr = real (h div 65536 mod 256) / 255, cg = real (h div 256 mod 256) / 255,
     cb = real (h mod 256) / 255\<rparr>"

definition exHost :: Host where
  "exHost = \<lparr>random = (\<lambda>n. 1 / 2), toColor = hexRGB, offsetL = (\<lambda>c l. c)\<rparr>"

definition spot :: "real \<Rightarrow> real \<Rightarrow> real \<Rightarrow> nat \<Rightarrow> VoxelData" where
  "spot a b c h = \<lparr>x = a, y = b, z = c, hex = h\<rparr>"

text \<open>Three voxels in a row from \<open>a\<close> on: a red one and two blue ones.\<close>

definition paints :: "real \<Rightarrow> SimulationVoxel list" where
  "paints a = [(cube 0 a 0 0)\<lparr>color := \<lparr>cr = 1, cg = 0, cb = 0\<rparr>\<rparr>,
               (cube 1 (a + 1) 0 0)\<lparr>color := \<lparr>cr = 0, cg = 0, cb = 1\<rparr>\<rparr>,
               (cube 2 (a + 2) 0 0)\<lparr>color := \<lparr>cr = 0, cg = 0, cb = 1\<rparr>\<rparr>]"

text \<open>An engine in the middle of a rebuild: slot 0 is matched, slot 1 is rubble.\<close>

definition midRebuild :: Engine where
  "midRebuild = \<lparr>voxels = [cube 0 0 (- 12) 0, airborne],
     rebuildTargets = [Some (slotFor (spot 0 3 0 0)), Some (rubbleAt airborne)],
     rebuildStartTime = 0, state = REBUILDING,
     hasMesh = True, stateLog = [REBUILDING], countLog = [], drawn = 0\<rparr>"

text \<open>
  Voxels at rest: an anchor with two voxels in the one cell above it, and an anchor with
  one voxel above it.
\<close>

definition stack :: "SimulationVoxel list" where
  "stack = [cube 0 0 (- 11) 0, cube 1 0 (- 10) 0, cube 2 0 (- 10) 0]"

definition tower :: "SimulationVoxel list" where
  "tower = [cube 0 0 (- 11) 0, cube 1 0 (- 10) 0]"

text \<open>An engine whose first voxel has both flags set, and a session of commands.\<close>

definition muddled :: Engine where
  "muddled = engineOf [(cube 0 0 5 0)\<lparr>isFalling := True\<rparr>, cube 1 0 (- 12) 0]"

definition session :: "command list" where
  "session = [MouseClick (Some 1), UpdatePhysics 1, Dismantle, UpdatePhysics 2,
     Rebuild [spot 0 3 0 0] 5, UpdatePhysics 6, TriggerFalling 0, CheckStructuralIntegrity,
     LoadInitialModel [spot 0 0 0 0], MouseClick (Some 0), UpdatePhysics 9]"

section \<open>The physics step outside a rebuild\<close>

lemma updatePhysics_free:
  "state s \<noteq> REBUILDING \<Longrightarrow> updatePhysics now s = Some (s\<lparr>voxels := map fallStep (voxels s)\<rparr>)"
  by (simp add: updatePhysics_def)

lemma gravity_sel [simp]:
  "x (gravity v) = x v" "y (gravity v) = y v" "z (gravity v) = z v"
  "vx (gravity v) = vx v" "vy (gravity v) = vy v - 0.052" "vz (gravity v) = vz v"
  "rvx (gravity v) = rvx v" "rvy (gravity v) = rvy v" "rvz (gravity v) = rvz v"
  "isFalling (gravity v) = isFalling v" "grounded (gravity v) = grounded v"
  by (simp_all add: gravity_def)

lemma integrate_sel [simp]:
  "y (integrate v) = y v + vy v"
  "vx (integrate v) = vx v" "vy (integrate v) = vy v" "vz (integrate v) = vz v"
  "rvx (integrate v) = rvx v" "rvy (integrate v) = rvy v" "rvz (integrate v) = rvz v"
  "isFalling (integrate v) = isFalling v" "grounded (integrate v) = grounded v"
  by (simp_all add: integrate_def)

lemma bounce_sel [simp]:
  "y (bounce v) = FLOOR_Y + 0.5"
  "vx (bounce v) = vx v * 0.75" "vy (bounce v) = vy v * (- 0.42)" "vz (bounce v) = vz v * 0.75"
  "rvx (bounce v) = rvx v * 0.65" "rvy (bounce v) = rvy v * 0.65" "rvz (bounce v) = rvz v * 0.65"
  "isFalling (bounce v) = isFalling v" "grounded (bounce v) = grounded v"
  by (simp_all add: bounce_def)

lemma rest_flags [simp]:
  "y (rest v) = y v" "isFalling (rest v) = isFalling v" "grounded (rest v) = grounded v"
  by (simp_all add: rest_def)

lemma rest_fires:
  "\<bar>vy v\<bar> < 0.05 \<and> \<bar>vx v\<bar> < 0.05 \<and> \<bar>vz v\<bar> < 0.05 \<Longrightarrow>
   vx (rest v) = 0 \<and> vy (rest v) = 0 \<and> vz (rest v) = 0 \<and>
   rvx (rest v) = 0 \<and> rvy (rest v) = 0 \<and> rvz (rest v) = 0"
  unfolding rest_def by (simp only: if_True) simp

lemma rest_idle:
  "\<not> (\<bar>vy v\<bar> < 0.05 \<and> \<bar>vx v\<bar> < 0.05 \<and> \<bar>vz v\<bar> < 0.05) \<Longrightarrow> rest v = v"
  unfolding rest_def by (simp only: if_False)

lemma fallStep_floor:
  assumes "isFalling v" and "y v + (vy v - 0.052) < FLOOR_Y + 0.5"
  shows "fallStep v = rest (bounce (integrate (gravity v)))"
  using assms by (simp add: fallStep_def Let_def)

lemma fallStep_bounce:
  assumes "isFalling v" and "y v + (vy v - 0.052) < FLOOR_Y + 0.5"
  shows "y (fallStep v) = FLOOR_Y + 0.5"
    and "isFalling (fallStep v)" and "grounded (fallStep v) = grounded v"
    and "\<bar>(vy v - 0.052) * (- 0.42)\<bar> < 0.05 \<and> \<bar>vx v * 0.75\<bar> < 0.05 \<and> \<bar>vz v * 0.75\<bar> < 0.05 \<Longrightarrow>
         vx (fallStep v) = 0 \<and> vy (fallStep v) = 0 \<and> vz (fallStep v) = 0 \<and>
         rvx (fallStep v) = 0 \<and> rvy (fallStep v) = 0 \<and> rvz (fallStep v) = 0"
    and "\<not> (\<bar>(vy v - 0.052) * (- 0.42)\<bar> < 0.05 \<and> \<bar>vx v * 0.75\<bar> < 0.05 \<and> \<bar>vz v * 0.75\<bar> < 0.05) \<Longrightarrow>
         vy (fallStep v) = (vy v - 0.052) * (- 0.42) \<and>
         vx (fallStep v) = vx v * 0.75 \<and> vz (fallStep v) = vz v * 0.75 \<and>
         rvx (fallStep v) = rvx v * 0.65 \<and> rvy (fallStep v) = rvy v * 0.65 \<and>
         rvz (fallStep v) = rvz v * 0.65"
proof -
  let ?w = "bounce (integrate (gravity v))"
  note eq = fallStep_floor [OF assms]
  have sel: "vy ?w = (vy v - 0.052) * (- 0.42)" "vx ?w = vx v * 0.75" "vz ?w = vz v * 0.75"
    "rvx ?w = rvx v * 0.65" "rvy ?w = rvy v * 0.65" "rvz ?w = rvz v * 0.65"
    by simp_all
  show "y (fallStep v) = FLOOR_Y + 0.5" unfolding eq by simp
  show "isFalling (fallStep v)" unfolding eq using assms(1) by simp
  show "grounded (fallStep v) = grounded v" unfolding eq by simp
  show "vx (fallStep v) = 0 \<and> vy (fallStep v) = 0 \<and> vz (fallStep v) = 0 \<and>
         rvx (fallStep v) = 0 \<and> rvy (fallStep v) = 0 \<and> rvz (fallStep v) = 0"
    if "\<bar>(vy v - 0.052) * (- 0.42)\<bar> < 0.05 \<and> \<bar>vx v * 0.75\<bar> < 0.05 \<and> \<bar>vz v * 0.75\<bar> < 0.05"
    unfolding eq using rest_fires [of ?w] that unfolding sel by blast
  show "vy (fallStep v) = (vy v - 0.052) * (- 0.42) \<and>
         vx (fallStep v) = vx v * 0.75 \<and> vz (fallStep v) = vz v * 0.75 \<and>
         rvx (fallStep v) = rvx v * 0.65 \<and> rvy (fallStep v) = rvy v * 0.65 \<and>
         rvz (fallStep v) = rvz v * 0.65"
    if "\<not> (\<bar>(vy v - 0.052) * (- 0.42)\<bar> < 0.05 \<and> \<bar>vx v * 0.75\<bar> < 0.05 \<and> \<bar>vz v * 0.75\<bar> < 0.05)"
  proof -
    have "rest ?w = ?w" using rest_idle [of ?w] that unfolding sel by blast
    then show ?thesis unfolding eq using sel by (simp only:)
  qed
qed

text \<open>
  C3, as the code has it. A falling voxel that the step carries below \<open>FLOOR_Y + 0.5\<close>
  while the engine is not rebuilding ends the step at height \<open>FLOOR_Y + 0.5\<close>, whether
  the rest detection fires or not. Unless the three damped linear velocities are all below
  0.05 in magnitude, its vertical velocity is -0.42 times the vertical velocity it had
  before the bounce (the old one less the gravity 0.052), its horizontal velocities are
  0.75 times and its angular velocities 0.65 times the old ones.
\<close>

theorem floor_bounce:
  assumes "state s \<noteq> REBUILDING" and "i < length (voxels s)"
    and "v = voxels s ! i" and "isFalling v"
    and "y v + (vy v - 0.052) < FLOOR_Y + 0.5"
  shows "\<exists>s'. updatePhysics now s = Some s' \<and> length (voxels s') = length (voxels s) \<and>
           y (voxels s' ! i) = FLOOR_Y + 0.5 \<and>
           (\<not> (\<bar>(vy v - 0.052) * (- 0.42)\<bar> < 0.05 \<and> \<bar>vx v * 0.75\<bar> < 0.05 \<and>
               \<bar>vz v * 0.75\<bar> < 0.05) \<longrightarrow>
            vy (voxels s' ! i) = (vy v - 0.052) * (- 0.42) \<and>
            vx (voxels s' ! i) = vx v * 0.75 \<and> vz (voxels s' ! i) = vz v * 0.75 \<and>
            rvx (voxels s' ! i) = rvx v * 0.65 \<and> rvy (voxels s' ! i) = rvy v * 0.65 \<and>
            rvz (voxels s' ! i) = rvz v * 0.65)"
proof -
  have "updatePhysics now s = Some (s\<lparr>voxels := map fallStep (voxels s)\<rparr>)"
    using assms(1) by (rule updatePhysics_free)
  moreover have "voxels (s\<lparr>voxels := map fallStep (voxels s)\<rparr>) ! i = fallStep v"
    using assms(2,3) by simp
  ultimately show ?thesis
    using fallStep_bounce(1) [OF assms(4,5)] fallStep_bounce(5) [OF assms(4,5)] by simp
qed

theorem floor_bounce_witness:
  "state (engineOf [bouncing]) \<noteq> REBUILDING \<and> isFalling bouncing \<and>
   y bouncing + (vy bouncing - 0.052) < FLOOR_Y + 0.5 \<and>
   \<not> (\<bar>(vy bouncing - 0.052) * (- 0.42)\<bar> < 0.05 \<and> \<bar>vx bouncing * 0.75\<bar> < 0.05 \<and>
      \<bar>vz bouncing * 0.75\<bar> < 0.05) \<and>
   (\<exists>s'. updatePhysics 0 (engineOf [bouncing]) = Some s' \<and>
     length (voxels s') = length (voxels (engineOf [bouncing])) \<and>
     y (voxels s' ! 0) = FLOOR_Y + 0.5 \<and>
     vy (voxels s' ! 0) = (vy bouncing - 0.052) * (- 0.42) \<and>
     vx (voxels s' ! 0) = vx bouncing * 0.75 \<and> vz (voxels s' ! 0) = vz bouncing * 0.75 \<and>
     rvx (voxels s' ! 0) = rvx bouncing * 0.65 \<and> rvy (voxels s' ! 0) = rvy bouncing * 0.65 \<and>
     rvz (voxels s' ! 0) = rvz bouncing * 0.65) \<and>
   state (engineOf [landing]) \<noteq> REBUILDING \<and> isFalling landing \<and>
   y landing + (vy landing - 0.052) < FLOOR_Y + 0.5 \<and>
   \<bar>(vy landing - 0.052) * (- 0.42)\<bar> < 0.05 \<and> \<bar>vx landing * 0.75\<bar> < 0.05 \<and>
   \<bar>vz landing * 0.75\<bar> < 0.05 \<and>
   (\<exists>s'. updatePhysics 0 (engineOf [landing]) = Some s' \<and>
     length (voxels s') = length (voxels (engineOf [landing])) \<and>
     y (voxels s' ! 0) = FLOOR_Y + 0.5)"
proof -
  have h: "state (engineOf [bouncing]) \<noteq> REBUILDING" "0 < length (voxels (engineOf [bouncing]))"
    "bouncing = voxels (engineOf [bouncing]) ! 0" "isFalling bouncing"
    "y bouncing + (vy bouncing - 0.052) < FLOOR_Y + 0.5"
    by (simp_all add: engineOf_def bouncing_def cube_def FLOOR_Y_def)
  have n: "\<not> (\<bar>(vy bouncing - 0.052) * (- 0.42)\<bar> < 0.05 \<and> \<bar>vx bouncing * 0.75\<bar> < 0.05 \<and>
        \<bar>vz bouncing * 0.75\<bar> < 0.05)"
    by (simp add: bouncing_def cube_def)
  have k: "state (engineOf [landing]) \<noteq> REBUILDING" "0 < length (voxels (engineOf [landing]))"
    "landing = voxels (engineOf [landing]) ! 0" "isFalling landing"
    "y landing + (vy landing - 0.052) < FLOOR_Y + 0.5"
    by (simp_all add: engineOf_def landing_def cube_def FLOOR_Y_def)
  have r: "\<bar>(vy landing - 0.052) * (- 0.42)\<bar> < 0.05" "\<bar>vx landing * 0.75\<bar> < 0.05"
    "\<bar>vz landing * 0.75\<bar> < 0.05"
    by (simp_all add: landing_def cube_def)
  from floor_bounce [OF h, of 0] n
  have a: "\<exists>s'. updatePhysics 0 (engineOf [bouncing]) = Some s' \<and>
     length (voxels s') = length (voxels (engineOf [bouncing])) \<and>
     y (voxels s' ! 0) = FLOOR_Y + 0.5 \<and>
     vy (voxels s' ! 0) = (vy bouncing - 0.052) * (- 0.42) \<and>
     vx (voxels s' ! 0) = vx bouncing * 0.75 \<and> vz (voxels s' ! 0) = vz bouncing * 0.75 \<and>
     rvx (voxels s' ! 0) = rvx bouncing * 0.65 \<and> rvy (voxels s' ! 0) = rvy bouncing * 0.65 \<and>
     rvz (voxels s' ! 0) = rvz bouncing * 0.65"
    by blast
  from floor_bounce [OF k, of 0]
  have b: "\<exists>s'. updatePhysics 0 (engineOf [landing]) = Some s' \<and>
     length (voxels s') = length (voxels (engineOf [landing])) \<and>
     y (voxels s' ! 0) = FLOOR_Y + 0.5"
    by blast
  from h(1,4,5) n a k(1,4,5) r b show ?thesis by blast
qed

text \<open>
  The claim C3 as it is written fails where the rest detection fires: the voxel
  \<open>landing\<close> falls below the floor plane with the vertical velocity -0.062 and ends
  the step with the vertical velocity 0, not 0.02604, and the angular velocity 0, not 0.065.
\<close>

theorem floor_bounce_counterexample:
  "state (engineOf [landing]) \<noteq> REBUILDING \<and> isFalling landing \<and>
   y landing + (vy landing - 0.052) < FLOOR_Y + 0.5 \<and>
   updatePhysics 0 (engineOf [landing]) =
     Some (engineOf [landing\<lparr>vy := 0, rx := 0.1, rvx := 0\<rparr>]) \<and>
   vy (landing\<lparr>vy := 0, rx := 0.1, rvx := 0\<rparr>) \<noteq> (vy landing - 0.052) * (- 0.42) \<and>
   rvx (landing\<lparr>vy := 0, rx := 0.1, rvx := 0\<rparr>) \<noteq> rvx landing * 0.65"
  by (simp add: updatePhysics_def engineOf_def landing_def cube_def fallStep_def gravity_def integrate_def bounce_def rest_def FLOOR_Y_def Let_def)

text \<open>
  C4, as the code has it. The rest detection is part of the floor collision: a falling
  voxel that the step carries below \<open>FLOOR_Y + 0.5\<close> and whose three linear velocities,
  damped by the bounce, are all below 0.05 in magnitude ends the step with its six
  velocities 0; it is still falling, and \<open>grounded\<close> is as it was.
\<close>

theorem rest_snap:
  assumes "state s \<noteq> REBUILDING" and "i < length (voxels s)"
    and "v = voxels s ! i" and "isFalling v"
    and "y v + (vy v - 0.052) < FLOOR_Y + 0.5"
    and "\<bar>(vy v - 0.052) * (- 0.42)\<bar> < 0.05 \<and> \<bar>vx v * 0.75\<bar> < 0.05 \<and> \<bar>vz v * 0.75\<bar> < 0.05"
  shows "\<exists>s'. updatePhysics now s = Some s' \<and> length (voxels s') = length (voxels s) \<and>
           vx (voxels s' ! i) = 0 \<and> vy (voxels s' ! i) = 0 \<and> vz (voxels s' ! i) = 0 \<and>
           rvx (voxels s' ! i) = 0 \<and> rvy (voxels s' ! i) = 0 \<and> rvz (voxels s' ! i) = 0 \<and>
           isFalling (voxels s' ! i) \<and> grounded (voxels s' ! i) = grounded v \<and>
           state s' = state s"
proof -
  have "updatePhysics now s = Some (s\<lparr>voxels := map fallStep (voxels s)\<rparr>)"
    using assms(1) by (rule updatePhysics_free)
  moreover have "voxels (s\<lparr>voxels := map fallStep (voxels s)\<rparr>) ! i = fallStep v"
    using assms(2,3) by simp
  ultimately show ?thesis
    using fallStep_bounce(2,3) [OF assms(4,5)] fallStep_bounce(4) [OF assms(4,5,6)] by simp
qed

theorem rest_snap_witness:
  "state (engineOf [landing]) \<noteq> REBUILDING \<and> isFalling landing \<and>
   y landing + (vy landing - 0.052) < FLOOR_Y + 0.5 \<and>
   \<bar>(vy landing - 0.052) * (- 0.42)\<bar> < 0.05 \<and> \<bar>vx landing * 0.75\<bar> < 0.05 \<and>
   \<bar>vz landing * 0.75\<bar> < 0.05 \<and>
   (\<exists>s'. updatePhysics 0 (engineOf [landing]) = Some s' \<and>
     length (voxels s') = length (voxels (engineOf [landing])) \<and>
     vx (voxels s' ! 0) = 0 \<and> vy (voxels s' ! 0) = 0 \<and> vz (voxels s' ! 0) = 0 \<and>
     rvx (voxels s' ! 0) = 0 \<and> rvy (voxels s' ! 0) = 0 \<and> rvz (voxels s' ! 0) = 0 \<and>
     isFalling (voxels s' ! 0) \<and> grounded (voxels s' ! 0) = grounded landing \<and>
     state s' = state (engineOf [landing]))"
proof -
  have h: "state (engineOf [landing]) \<noteq> REBUILDING" "0 < length (voxels (engineOf [landing]))"
    "landing = voxels (engineOf [landing]) ! 0" "isFalling landing"
    "y landing + (vy landing - 0.052) < FLOOR_Y + 0.5"
    "\<bar>(vy landing - 0.052) * (- 0.42)\<bar> < 0.05 \<and> \<bar>vx landing * 0.75\<bar> < 0.05 \<and>
       \<bar>vz landing * 0.75\<bar> < 0.05"
    by (simp_all add: engineOf_def landing_def cube_def FLOOR_Y_def)
  from rest_snap [OF h, of 0] h(1,4,5,6) show ?thesis by blast
qed

text \<open>
  The claim C4 as it is written fails above the floor: the voxel \<open>airborne\<close> is falling,
  and after the step its three linear velocities are 0, yet its angular velocity is still 0.1.
\<close>

theorem rest_snap_counterexample:
  "state (engineOf [airborne]) \<noteq> REBUILDING \<and> isFalling airborne \<and>
   updatePhysics 0 (engineOf [airborne]) = Some (engineOf [airborne\<lparr>vy := 0, rx := 0.1\<rparr>]) \<and>
   \<bar>vx (airborne\<lparr>vy := 0, rx := 0.1\<rparr>)\<bar> < 0.05 \<and>
   \<bar>vy (airborne\<lparr>vy := 0, rx := 0.1\<rparr>)\<bar> < 0.05 \<and>
   \<bar>vz (airborne\<lparr>vy := 0, rx := 0.1\<rparr>)\<bar> < 0.05 \<and>
   rvx (airborne\<lparr>vy := 0, rx := 0.1\<rparr>) \<noteq> 0"
  by (simp add: updatePhysics_def engineOf_def airborne_def cube_def fallStep_def gravity_def integrate_def bounce_def rest_def FLOOR_Y_def Let_def)

section \<open>JavaScript arrays within their range\<close>

lemma getAt_in: "i < length xs \<Longrightarrow> getAt xs i = xs ! i"
  by (simp add: getAt_def)

lemma setAt_in: "i < length xs \<Longrightarrow> setAt xs i v = xs[i := Some v]"
  by (simp add: setAt_def)

section \<open>The rebuild step of the physics\<close>

lemma easeStep_rubble:
  "getAt ts i = Some t \<Longrightarrow> isRubble t \<Longrightarrow> easeStep e ts i (vs, a) = Some (vs, a)"
  by (simp add: easeStep_def)

lemma easeStep_total:
  assumes "getAt ts i = Some t"
  shows "\<exists>vs' a'. easeStep e ts i (vs, a) = Some (vs', a') \<and> length vs' = length vs \<and>
           (\<forall>j. j \<noteq> i \<longrightarrow> vs' ! j = vs ! j)"
  using assms by (auto simp: easeStep_def Let_def)

lemma ease_loop:
  assumes "\<forall>i \<in> set js. getAt ts i \<noteq> None"
  shows "\<exists>vs' a'. forEachM (easeStep e ts) js (vs, a) = Some (vs', a') \<and>
           length vs' = length vs \<and>
           (\<forall>j t. getAt ts j = Some t \<and> isRubble t \<longrightarrow> vs' ! j = vs ! j)"
  using assms
proof (induction js arbitrary: vs a)
  case Nil
  then show ?case by simp
next
  case (Cons i js)
  then obtain t where t: "getAt ts i = Some t" by auto
  from easeStep_total [OF t, of e vs a] obtain vs1 a1 where
    s1: "easeStep e ts i (vs, a) = Some (vs1, a1)" and l1: "length vs1 = length vs"
    and o1: "\<forall>j. j \<noteq> i \<longrightarrow> vs1 ! j = vs ! j" by blast
  have r1: "vs1 ! j = vs ! j" if "getAt ts j = Some u" "isRubble u" for j u
  proof (cases "j = i")
    case True
    with that t s1 show ?thesis by (simp add: easeStep_rubble)
  next
    case False
    with o1 show ?thesis by simp
  qed
  from Cons.IH [of vs1 a1] Cons.prems obtain vs' a' where
    s2: "forEachM (easeStep e ts) js (vs1, a1) = Some (vs', a')" and l2: "length vs' = length vs1"
    and o2: "\<forall>j t. getAt ts j = Some t \<and> isRubble t \<longrightarrow> vs' ! j = vs1 ! j" by auto
  have "forEachM (easeStep e ts) (i # js) (vs, a) = Some (vs', a')"
    using s1 s2 by simp
  moreover have "length vs' = length vs" using l1 l2 by simp
  moreover have "\<forall>j t. getAt ts j = Some t \<and> isRubble t \<longrightarrow> vs' ! j = vs ! j"
    using o2 r1 by metis
  ultimately show ?case by blast
qed

lemma ease_loop_rubble:
  assumes "\<forall>i \<in> set js. \<exists>t. getAt ts i = Some t \<and> isRubble t"
  shows "forEachM (easeStep e ts) js (vs, a) = Some (vs, a)"
  using assms by (induction js) (auto simp: easeStep_rubble)

lemma assignedD: "assigned s \<Longrightarrow> i < length (voxels s) \<Longrightarrow> getAt (rebuildTargets s) i \<noteq> None"
  by (simp add: assigned_def list_all_iff)

lemma updatePhysics_rebuilding:
  assumes "state s = REBUILDING" and "assigned s"
  shows "\<exists>s'. updatePhysics now s = Some s' \<and> length (voxels s') = length (voxels s) \<and>
           rebuildTargets s' = rebuildTargets s \<and> rebuildStartTime s' = rebuildStartTime s \<and>
           (state s' = REBUILDING \<or> state s' = STABLE) \<and>
           (\<forall>j t. getAt (rebuildTargets s) j = Some t \<and> isRubble t \<longrightarrow>
                  voxels s' ! j = voxels s ! j)"
proof -
  have "\<forall>i \<in> set [0..<length (voxels s)]. getAt (rebuildTargets s) i \<noteq> None"
    using assms(2) by (simp add: assigned_def list_all_iff)
  from ease_loop [OF this, of "now - rebuildStartTime s" "voxels s" True]
  obtain vs' a' where
    "forEachM (easeStep (now - rebuildStartTime s) (rebuildTargets s)) [0..<length (voxels s)]
       (voxels s, True) = Some (vs', a')"
    "length vs' = length (voxels s)"
    "\<forall>j t. getAt (rebuildTargets s) j = Some t \<and> isRubble t \<longrightarrow> vs' ! j = voxels s ! j"
    by blast
  then show ?thesis using assms(1) by (simp add: updatePhysics_def Let_def)
qed

lemma updatePhysics_step:
  assumes "state s = REBUILDING \<longrightarrow> assigned s"
  shows "\<exists>s'. updatePhysics now s = Some s' \<and> length (voxels s') = length (voxels s) \<and>
           rebuildTargets s' = rebuildTargets s \<and>
           (state s' = REBUILDING \<longrightarrow> state s = REBUILDING) \<and>
           (state s = REBUILDING \<longrightarrow>
             (\<forall>j t. getAt (rebuildTargets s) j = Some t \<and> isRubble t \<longrightarrow>
                  voxels s' ! j = voxels s ! j))"
proof (cases "state s = REBUILDING")
  case True
  with updatePhysics_rebuilding [of s now] assms show ?thesis by auto
next
  case False
  then show ?thesis by (simp add: updatePhysics_def)
qed

lemma run_rubble:
  assumes "state s = REBUILDING \<longrightarrow> assigned s"
  shows "\<exists>s'. run nows s = Some s' \<and> length (voxels s') = length (voxels s) \<and>
           rebuildTargets s' = rebuildTargets s \<and>
           (state s' = REBUILDING \<longrightarrow> state s = REBUILDING \<and>
             (\<forall>j t. getAt (rebuildTargets s) j = Some t \<and> isRubble t \<longrightarrow>
                  voxels s' ! j = voxels s ! j))"
  using assms
proof (induction nows arbitrary: s)
  case Nil
  then show ?case by (simp add: run_def)
next
  case (Cons now nows)
  from updatePhysics_step [OF Cons.prems, of now] obtain s1 where
    a: "updatePhysics now s = Some s1" and b: "length (voxels s1) = length (voxels s)"
    and c: "rebuildTargets s1 = rebuildTargets s"
    and d: "state s1 = REBUILDING \<longrightarrow> state s = REBUILDING"
    and e: "state s = REBUILDING \<longrightarrow>
             (\<forall>j t. getAt (rebuildTargets s) j = Some t \<and> isRubble t \<longrightarrow>
                  voxels s1 ! j = voxels s ! j)" by blast
  have "state s1 = REBUILDING \<longrightarrow> assigned s1"
    using Cons.prems b c d by (simp add: assigned_def)
  from Cons.IH [OF this] obtain s' where
    f: "run nows s1 = Some s'" and g: "length (voxels s') = length (voxels s1)"
    and h: "rebuildTargets s' = rebuildTargets s1"
    and k: "state s' = REBUILDING \<longrightarrow> state s1 = REBUILDING \<and>
             (\<forall>j t. getAt (rebuildTargets s1) j = Some t \<and> isRubble t \<longrightarrow>
                  voxels s' ! j = voxels s1 ! j)" by blast
  have "run (now # nows) s = Some s'" using a f by (simp add: run_def)
  moreover have "state s' = REBUILDING \<longrightarrow> state s = REBUILDING \<and>
             (\<forall>j t. getAt (rebuildTargets s) j = Some t \<and> isRubble t \<longrightarrow>
                  voxels s' ! j = voxels s ! j)"
    using k d e c by auto
  ultimately show ?case using b c g h by auto
qed

section \<open>The rebuild planner\<close>

lemma rubble_loop:
  "k \<le> length ms \<Longrightarrow>
   length (fold (rubbleStep vs) [0..<k] ms) = length ms \<and>
   (\<forall>j<length ms. fold (rubbleStep vs) [0..<k] ms ! j =
      (if j < k then (case ms ! j of None \<Rightarrow> Some (rubbleAt (vs ! j)) | Some t \<Rightarrow> Some t)
       else ms ! j))"
proof (induction k)
  case 0
  then show ?case by simp
next
  case (Suc k)
  let ?m = "fold (rubbleStep vs) [0..<k] ms"
  from Suc have len: "length ?m = length ms"
    and nth: "\<forall>j<length ms. ?m ! j =
      (if j < k then (case ms ! j of None \<Rightarrow> Some (rubbleAt (vs ! j)) | Some t \<Rightarrow> Some t)
       else ms ! j)"
    and k: "k < length ms" by simp_all
  have step: "fold (rubbleStep vs) [0..<Suc k] ms = rubbleStep vs k ?m" by simp
  have at: "getAt ?m k = ms ! k" using k len nth by (simp add: getAt_in)
  show ?case
  proof (cases "ms ! k")
    case None
    then have "rubbleStep vs k ?m = ?m[k := Some (rubbleAt (vs ! k))]"
      using at k len by (simp add: rubbleStep_def setAt_in rubbleAt_def)
    then show ?thesis unfolding step using len nth None
      by (auto simp: nth_list_update less_Suc_eq)
  next
    case (Some t)
    then have "rubbleStep vs k ?m = ?m" using at by (simp add: rubbleStep_def)
    then show ?thesis unfolding step using len nth Some
      by (auto simp: less_Suc_eq)
  qed
qed

lemma plan_nil: "plan H vs [] = map (\<lambda>v. Some (rubbleAt v)) vs"
proof -
  have "plan H vs [] = fold (rubbleStep vs) [0..<length vs] (replicate (length vs) None)"
    by (simp add: plan_def)
  also have "\<dots> = map (\<lambda>v. Some (rubbleAt v)) vs"
    using rubble_loop [of "length vs" "replicate (length vs) None" vs]
    by (auto intro!: nth_equalityI)
  finally show ?thesis .
qed

subsection \<open>The scan of the pool\<close>

lemma scanPool_spec:
  assumes "i \<le> length av"
    and "\<forall>j<i. \<not> taken (av ! j) \<longrightarrow>
           0.01 \<le> getColorDist H (pcolor (av ! j)) hx \<and> bd \<le> getColorDist H (pcolor (av ! j)) hx"
    and "(bi = - 1 \<and> bd = 9999) \<or>
         (\<exists>b<i. bi = int b \<and> \<not> taken (av ! b) \<and> bd = getColorDist H (pcolor (av ! b)) hx \<and>
            bd < 9999 \<and>
            (\<forall>j<b. \<not> taken (av ! j) \<longrightarrow> bd < getColorDist H (pcolor (av ! j)) hx))"
  shows "(scanPool H av hx i bd bi = - 1 \<and>
          (\<forall>j<length av. \<not> taken (av ! j) \<longrightarrow> 9999 \<le> getColorDist H (pcolor (av ! j)) hx)) \<or>
         (\<exists>k. scanPool H av hx i bd bi = int k \<and> chosen H av hx k)"
  using assms
proof (induction H av hx i bd bi rule: scanPool.induct)
  case (1 H av hx i bd bi)
  let ?d = "\<lambda>j. getColorDist H (pcolor (av ! j)) hx"
  note eq = scanPool.simps [of H av hx i bd bi]
  have bd_lo: "0.01 \<le> bd" and bd_hi: "bd \<le> 9999"
    using "1.prems"(2,3) by auto
  show ?case
  proof (cases "i < length av")
    case False
    then have n: "i = length av" and r: "scanPool H av hx i bd bi = bi"
      using "1.prems"(1) eq by simp_all
    from "1.prems"(3) show ?thesis
    proof
      assume "bi = - 1 \<and> bd = 9999"
      then show ?thesis using r n "1.prems"(2) by auto
    next
      assume "\<exists>b<i. bi = int b \<and> \<not> taken (av ! b) \<and> bd = ?d b \<and> bd < 9999 \<and>
                (\<forall>j<b. \<not> taken (av ! j) \<longrightarrow> bd < ?d j)"
      then obtain b where b: "b < i" "bi = int b" "\<not> taken (av ! b)" "bd = ?d b" "bd < 9999"
        "\<forall>j<b. \<not> taken (av ! j) \<longrightarrow> bd < ?d j" by blast
      have "chosen H av hx b"
        unfolding chosen_def using b n "1.prems"(2) by auto
      then show ?thesis using r b(2) by blast
    qed
  next
    case True
    show ?thesis
    proof (cases "taken (av ! i)")
      case t: True
      have r: "scanPool H av hx i bd bi = scanPool H av hx (i + 1) bd bi"
        using True t eq by simp
      have "(scanPool H av hx (i + 1) bd bi = - 1 \<and> (\<forall>j<length av. \<not> taken (av ! j) \<longrightarrow> 9999 \<le> ?d j)) \<or>
            (\<exists>k. scanPool H av hx (i + 1) bd bi = int k \<and> chosen H av hx k)"
      proof (rule "1.IH"(1) [OF True t])
        show "i + 1 \<le> length av" using True by simp
        show "\<forall>j<i + 1. \<not> taken (av ! j) \<longrightarrow> 0.01 \<le> ?d j \<and> bd \<le> ?d j"
          using "1.prems"(2) t by (auto simp: less_Suc_eq)
        show "(bi = - 1 \<and> bd = 9999) \<or>
              (\<exists>b<i + 1. bi = int b \<and> \<not> taken (av ! b) \<and> bd = ?d b \<and> bd < 9999 \<and>
                 (\<forall>j<b. \<not> taken (av ! j) \<longrightarrow> bd < ?d j))"
          using "1.prems"(3) by (auto simp: less_Suc_eq)
      qed
      then show ?thesis unfolding r .
    next
      case f: False
      show ?thesis
      proof (cases "?d i < bd")
        case worse: False
        have r: "scanPool H av hx i bd bi = scanPool H av hx (i + 1) bd bi"
          using True f worse eq by (simp add: Let_def)
        have "(scanPool H av hx (i + 1) bd bi = - 1 \<and> (\<forall>j<length av. \<not> taken (av ! j) \<longrightarrow> 9999 \<le> ?d j)) \<or>
              (\<exists>k. scanPool H av hx (i + 1) bd bi = int k \<and> chosen H av hx k)"
        proof (rule "1.IH"(3) [OF True f refl worse])
          show "i + 1 \<le> length av" using True by simp
          show "\<forall>j<i + 1. \<not> taken (av ! j) \<longrightarrow> 0.01 \<le> ?d j \<and> bd \<le> ?d j"
            using "1.prems"(2) worse bd_lo by (auto simp: less_Suc_eq)
          show "(bi = - 1 \<and> bd = 9999) \<or>
                (\<exists>b<i + 1. bi = int b \<and> \<not> taken (av ! b) \<and> bd = ?d b \<and> bd < 9999 \<and>
                   (\<forall>j<b. \<not> taken (av ! j) \<longrightarrow> bd < ?d j))"
            using "1.prems"(3) by (auto simp: less_Suc_eq)
        qed
        then show ?thesis unfolding r .
      next
        case better: True
        have before: "\<forall>j<i. \<not> taken (av ! j) \<longrightarrow> 0.01 \<le> ?d j \<and> ?d i < ?d j"
          using "1.prems"(2) better by fastforce
        show ?thesis
        proof (cases "?d i < 0.01")
          case near: True
          have r: "scanPool H av hx i bd bi = int i"
            using True f better near eq by (simp add: Let_def)
          have "chosen H av hx i"
            unfolding chosen_def using True f near before better bd_hi by auto
          then show ?thesis using r by blast
        next
          case far: False
          have r: "scanPool H av hx i bd bi = scanPool H av hx (i + 1) (?d i) (int i)"
            using True f better far eq by (simp add: Let_def)
          have "(scanPool H av hx (i + 1) (?d i) (int i) = - 1 \<and>
                  (\<forall>j<length av. \<not> taken (av ! j) \<longrightarrow> 9999 \<le> ?d j)) \<or>
                (\<exists>k. scanPool H av hx (i + 1) (?d i) (int i) = int k \<and> chosen H av hx k)"
          proof (rule "1.IH"(2) [OF True f refl better far])
            show "i + 1 \<le> length av" using True by simp
            show "\<forall>j<i + 1. \<not> taken (av ! j) \<longrightarrow> 0.01 \<le> ?d j \<and> ?d i \<le> ?d j"
              using before far by (auto simp: less_Suc_eq)
            have "i < i + 1 \<and> int i = int i \<and> \<not> taken (av ! i) \<and> ?d i = ?d i \<and> ?d i < 9999 \<and>
                   (\<forall>j<i. \<not> taken (av ! j) \<longrightarrow> ?d i < ?d j)"
              using f before better bd_hi by auto
            then show "(int i = - 1 \<and> ?d i = 9999) \<or>
                  (\<exists>b<i + 1. int i = int b \<and> \<not> taken (av ! b) \<and> ?d i = ?d b \<and> ?d i < 9999 \<and>
                     (\<forall>j<b. \<not> taken (av ! j) \<longrightarrow> ?d i < ?d j))"
              by blast
          qed
          then show ?thesis unfolding r .
        qed
      qed
    qed
  qed
qed

subsection \<open>One target\<close>

lemma assignTarget_cases:
  "(assignTarget H target (av, ms) = (av, ms) \<and>
    (\<forall>j<length av. \<not> taken (av ! j) \<longrightarrow> 9999 \<le> getColorDist H (pcolor (av ! j)) (hex target))) \<or>
   (\<exists>k. chosen H av (hex target) k \<and>
      assignTarget H target (av, ms) =
        (av[k := (av ! k)\<lparr>taken := True\<rparr>], setAt ms (index (av ! k)) (slotFor target)))"
proof -
  from scanPool_spec [of 0 av H "hex target" 9999 "- 1"]
  consider (none) "scanPool H av (hex target) 0 9999 (- 1) = - 1"
      "\<forall>j<length av. \<not> taken (av ! j) \<longrightarrow> 9999 \<le> getColorDist H (pcolor (av ! j)) (hex target)"
    | (some) k where "scanPool H av (hex target) 0 9999 (- 1) = int k" "chosen H av (hex target) k"
    by auto
  then show ?thesis
  proof cases
    case none
    then show ?thesis by (simp add: assignTarget_def)
  next
    case (some k)
    then have "k < length av" by (simp add: chosen_def)
    then have "assignTarget H target (av, ms) =
        (av[k := (av ! k)\<lparr>taken := True\<rparr>], setAt ms (index (av ! k)) (slotFor target))"
      using some(1) by (simp add: assignTarget_def Let_def slotFor_def)
    with some(2) show ?thesis by blast
  qed
qed

lemma pool_nth:
  "i < length vs \<Longrightarrow> pool vs ! i = \<lparr>index = i, pcolor = color (vs ! i), taken = False\<rparr>"
  by (simp add: pool_def nth_enumerate_eq)

lemma length_pool [simp]: "length (pool vs) = length vs"
  by (simp add: pool_def)

lemma poolInv_init: "poolInv vs T (pool vs, replicate (length vs) None)"
  by (simp add: poolInv_def pool_nth)

lemma poolInv_step:
  assumes "poolInv vs T (av, ms)" and "target \<in> T"
  shows "poolInv vs T (assignTarget H target (av, ms))"
proof -
  from assignTarget_cases [of H target av ms]
  consider (none) "assignTarget H target (av, ms) = (av, ms)"
    | (some) k where "chosen H av (hex target) k"
        "assignTarget H target (av, ms) =
          (av[k := (av ! k)\<lparr>taken := True\<rparr>], setAt ms (index (av ! k)) (slotFor target))"
    by blast
  then show ?thesis
  proof cases
    case none
    with assms(1) show ?thesis by simp
  next
    case (some k)
    from some(1) have k: "k < length av" by (simp add: chosen_def)
    from assms(1) k have kk: "k < length vs" "k < length ms" "index (av ! k) = k"
      by (simp_all add: poolInv_def)
    have "assignTarget H target (av, ms) =
          (av[k := (av ! k)\<lparr>taken := True\<rparr>], ms[k := Some (slotFor target)])"
      using some(2) kk by (simp add: setAt_in)
    then show ?thesis
      using assms kk k by (auto simp: poolInv_def nth_list_update)
  qed
qed

lemma poolInv_fold:
  "poolInv vs T p \<Longrightarrow> set ts \<subseteq> T \<Longrightarrow> poolInv vs T (fold (assignTarget H) ts p)"
proof (induction ts arbitrary: p)
  case Nil
  then show ?case by simp
next
  case (Cons t ts)
  obtain av ms where p: "p = (av, ms)" by (cases p)
  have "poolInv vs T (assignTarget H t p)"
    using Cons.prems poolInv_step [of vs T av ms t H] p by simp
  then show ?case using Cons.IH Cons.prems by simp
qed

subsection \<open>Counting the untaken entries\<close>

lemma finite_free: "finite (free av)"
  by (simp add: free_def)

lemma free_step:
  assumes "\<forall>j<length av. \<not> taken (av ! j) \<longrightarrow> getColorDist H (pcolor (av ! j)) (hex target) < 9999"
  shows "card (free (fst (assignTarget H target (av, ms)))) = card (free av) - 1"
proof -
  from assignTarget_cases [of H target av ms]
  consider (none) "assignTarget H target (av, ms) = (av, ms)"
      "\<forall>j<length av. \<not> taken (av ! j) \<longrightarrow> 9999 \<le> getColorDist H (pcolor (av ! j)) (hex target)"
    | (some) k where "chosen H av (hex target) k"
        "assignTarget H target (av, ms) =
          (av[k := (av ! k)\<lparr>taken := True\<rparr>], setAt ms (index (av ! k)) (slotFor target))"
    by blast
  then show ?thesis
  proof cases
    case none
    have "free av = {}"
      unfolding free_def using none(2) assms by fastforce
    then show ?thesis using none(1) by simp
  next
    case (some k)
    from some(1) have k: "k < length av" "\<not> taken (av ! k)" by (simp_all add: chosen_def)
    have "free (av[k := (av ! k)\<lparr>taken := True\<rparr>]) = free av - {k}"
      using k unfolding free_def by (auto simp: nth_list_update)
    moreover have "k \<in> free av" using k by (simp add: free_def)
    ultimately show ?thesis using some(2) by (simp add: finite_free)
  qed
qed

lemma free_fold:
  assumes "poolInv vs T p" and "set ts \<subseteq> T"
    and "\<forall>h. \<forall>j<length vs. getColorDist H (color (vs ! j)) h < 9999"
  shows "card (free (fst (fold (assignTarget H) ts p))) = card (free (fst p)) - length ts"
  using assms(1,2)
proof (induction ts arbitrary: p)
  case Nil
  then show ?case by simp
next
  case (Cons t ts)
  obtain av ms where p: "p = (av, ms)" by (cases p)
  have inv: "poolInv vs T (assignTarget H t p)"
    using Cons.prems poolInv_step [of vs T av ms t H] p by simp
  have "\<forall>j<length av. \<not> taken (av ! j) \<longrightarrow> getColorDist H (pcolor (av ! j)) (hex t) < 9999"
    using Cons.prems(1) assms(3) p by (simp add: poolInv_def)
  from free_step [OF this, of ms]
  have "card (free (fst (assignTarget H t p))) = card (free (fst p)) - 1" using p by simp
  moreover have "card (free (fst (fold (assignTarget H) ts (assignTarget H t p)))) =
      card (free (fst (assignTarget H t p))) - length ts"
    using Cons.IH [OF inv] Cons.prems(2) by simp
  ultimately show ?case by simp
qed

subsection \<open>The whole plan\<close>

lemma matching_inv: "poolInv vs (set ts) (matching H vs ts)"
  unfolding matching_def by (rule poolInv_fold [OF poolInv_init]) simp

lemma plan_matching:
  "plan H vs ts = fold (rubbleStep vs) [0..<length vs] (snd (matching H vs ts))"
  by (simp add: plan_def matching_def pool_def Let_def split_def)

lemma plan_nth:
  "length (plan H vs ts) = length vs"
  "i < length vs \<Longrightarrow> plan H vs ts ! i =
     (case snd (matching H vs ts) ! i of None \<Rightarrow> Some (rubbleAt (vs ! i)) | Some t \<Rightarrow> Some t)"
proof -
  obtain av ms where m: "matching H vs ts = (av, ms)" by (cases "matching H vs ts")
  with matching_inv [of vs ts H] have len: "length ms = length vs" by (simp add: poolInv_def)
  from rubble_loop [of "length vs" ms vs] len m
  show "length (plan H vs ts) = length vs"
    and "i < length vs \<Longrightarrow> plan H vs ts ! i =
     (case snd (matching H vs ts) ! i of None \<Rightarrow> Some (rubbleAt (vs ! i)) | Some t \<Rightarrow> Some t)"
    by (simp_all add: plan_matching)
qed

lemma matching_colors:
  "map color vs = map color vs' \<Longrightarrow> matching H vs ts = matching H vs' ts"
proof -
  assume a: "map color vs = map color vs'"
  then have l: "length vs = length vs'" by (rule map_eq_imp_length_eq)
  have "pool vs = pool vs'"
  proof (rule nth_equalityI)
    show "length (pool vs) = length (pool vs')" using l by simp
    fix i assume "i < length (pool vs)"
    then have i: "i < length vs" by simp
    then have "color (vs ! i) = color (vs' ! i)"
      using a l by (metis nth_map)
    then show "pool vs ! i = pool vs' ! i" using i l by (simp add: pool_nth)
  qed
  then show ?thesis using l by (simp add: matching_def)
qed

subsection \<open>Colours of the unit cube\<close>

lemma weighted_square:
  fixes a b w :: real
  assumes "0 \<le> a" "a \<le> 1" "0 \<le> b" "b \<le> 1" "0 \<le> w" "w \<le> 1"
  shows "(a - b) * w * ((a - b) * w) \<le> 1"
proof -
  have "\<bar>(a - b) * w\<bar> \<le> 1"
  proof -
    have "\<bar>a - b\<bar> \<le> 1" using assms by (simp add: abs_le_iff)
    moreover have "\<bar>w\<bar> \<le> 1" using assms by simp
    ultimately have "\<bar>a - b\<bar> * \<bar>w\<bar> \<le> 1 * 1" by (intro mult_mono) simp_all
    then show ?thesis by (simp add: abs_mult)
  qed
  then have "((a - b) * w)\<^sup>2 \<le> 1" by (simp add: abs_square_le_1)
  then show ?thesis by (simp add: power2_eq_square)
qed

lemma dist_gamut:
  assumes "inGamut c1" and "inGamut (toColor H h)"
  shows "getColorDist H c1 h < 9999"
proof -
  let ?c2 = "toColor H h"
  let ?r = "(cr c1 - cr ?c2) * 0.3" and ?g = "(cg c1 - cg ?c2) * 0.59" and ?b = "(cb c1 - cb ?c2) * 0.11"
  have "?r * ?r \<le> 1" "?g * ?g \<le> 1" "?b * ?b \<le> 1"
    using assms unfolding inGamut_def by (intro weighted_square; simp)+
  then have "?r * ?r + ?g * ?g + ?b * ?b < 9999\<^sup>2" by simp
  then have "sqrt (?r * ?r + ?g * ?g + ?b * ?b) < 9999"
    by (intro real_less_lsqrt) simp_all
  then show ?thesis by (simp add: getColorDist_def Let_def)
qed

subsection \<open>The completion check\<close>

lemma easeStep_done:
  assumes "getAt ts i = Some t"
  shows "\<exists>vs' a'. easeStep e ts i (vs, a) = Some (vs', a') \<and>
           (\<forall>j. j \<noteq> i \<longrightarrow> vs' ! j = vs ! j) \<and>
           a' = (a \<and> (isRubble t \<or> settled e t (vs ! i)))"
  using assms by (auto simp: easeStep_def Let_def settled_def)

lemma ease_loop_done:
  assumes "distinct js" and "\<forall>i \<in> set js. getAt ts i \<noteq> None"
    and "forEachM (easeStep e ts) js (vs, a) = Some (vs', a')"
  shows "a' = (a \<and> (\<forall>i \<in> set js. \<forall>t. getAt ts i = Some t \<longrightarrow> isRubble t \<or> settled e t (vs ! i)))"
  using assms
proof (induction js arbitrary: vs a)
  case Nil
  then show ?case by simp
next
  case (Cons i js)
  then obtain t where t: "getAt ts i = Some t" by auto
  from easeStep_done [OF t, of e vs a] obtain vs1 a1 where
    s1: "easeStep e ts i (vs, a) = Some (vs1, a1)"
    and o1: "\<forall>j. j \<noteq> i \<longrightarrow> vs1 ! j = vs ! j"
    and a1: "a1 = (a \<and> (isRubble t \<or> settled e t (vs ! i)))" by blast
  have rest: "forEachM (easeStep e ts) js (vs1, a1) = Some (vs', a')"
    using Cons.prems(3) s1 by simp
  have "a' = (a1 \<and> (\<forall>k \<in> set js. \<forall>u. getAt ts k = Some u \<longrightarrow> isRubble u \<or> settled e u (vs1 ! k)))"
    using Cons.IH [OF _ _ rest] Cons.prems(1,2) by simp
  moreover have "vs1 ! k = vs ! k" if "k \<in> set js" for k
    using that Cons.prems(1) o1 by auto
  ultimately show ?case using a1 t by auto
qed

lemma updatePhysics_done:
  assumes "state s = REBUILDING" and "assigned s"
  shows "\<exists>s'. updatePhysics now s = Some s' \<and>
           (state s' = STABLE \<longleftrightarrow>
              (\<forall>i<length (voxels s). \<forall>t. getAt (rebuildTargets s) i = Some t \<longrightarrow>
                 isRubble t \<or> settled (now - rebuildStartTime s) t (voxels s ! i)))"
proof -
  let ?e = "now - rebuildStartTime s"
  have some: "\<forall>i \<in> set [0..<length (voxels s)]. getAt (rebuildTargets s) i \<noteq> None"
    using assms(2) by (simp add: assigned_def list_all_iff)
  from ease_loop [OF this, of ?e "voxels s" True]
  obtain vs' a' where
    run: "forEachM (easeStep ?e (rebuildTargets s)) [0..<length (voxels s)] (voxels s, True) = Some (vs', a')"
    by blast
  from ease_loop_done [OF _ some run]
  have "a' = (\<forall>i<length (voxels s). \<forall>t. getAt (rebuildTargets s) i = Some t \<longrightarrow>
                 isRubble t \<or> settled ?e t (voxels s ! i))"
    by auto
  then show ?thesis using run assms(1) by (simp add: updatePhysics_def Let_def)
qed

section \<open>Facts about the examples\<close>

lemma hexRGB_gamut: "inGamut (hexRGB h)"
proof -
  have "k mod 256 \<le> 255" for k :: nat
    using mod_less_divisor [of 256 k] by linarith
  then have "real (k mod 256) / 255 \<le> 1" for k :: nat
    by (simp add: divide_le_eq_1) 
  then show ?thesis by (simp add: inGamut_def hexRGB_def)
qed

lemma dist_black: "getColorDist exHost \<lparr>cr = 0, cg = 0, cb = 0\<rparr> 0 = 0"
  by (simp add: getColorDist_def exHost_def hexRGB_def)

lemma dist_red: "getColorDist exHost \<lparr>cr = 1, cg = 0, cb = 0\<rparr> 0 = 3 / 10"
proof -
  have "getColorDist exHost \<lparr>cr = 1, cg = 0, cb = 0\<rparr> 0 = sqrt ((3 / 10) * (3 / 10))"
    by (simp add: getColorDist_def exHost_def hexRGB_def)
  also have "\<dots> = 3 / 10"
    by (rule real_sqrt_unique) (simp_all add: power2_eq_square)
  finally show ?thesis .
qed

lemma dist_blue: "getColorDist exHost \<lparr>cr = 0, cg = 0, cb = 1\<rparr> 0 = 11 / 100"
proof -
  have "getColorDist exHost \<lparr>cr = 0, cg = 0, cb = 1\<rparr> 0 = sqrt ((11 / 100) * (11 / 100))"
    by (simp add: getColorDist_def exHost_def hexRGB_def)
  also have "\<dots> = 11 / 100"
    by (rule real_sqrt_unique) (simp_all add: power2_eq_square)
  finally show ?thesis .
qed

lemmas eval_plan = plan_def assignTarget_def scanPool.simps dist_black cube_def spot_def
  enumerate_eq_zip rubbleStep_def getAt_def setAt_def Let_def FLOOR_Y_def
  upt_rec [of _ "numeral _"] upt_rec [of 0 "Suc _"] upt_rec [of "Suc _" "Suc _"]

section \<open>Rubble during a rebuild\<close>

text \<open>
  C8. While the engine is rebuilding, a physics step leaves a rubble voxel as it is:
  the voxel of a slot whose assignment is marked rubble is the same after the step as before
  it, whatever the clock reads, and so after any run of steps that begin in the state
  REBUILDING. The assignments are not touched.
\<close>

theorem rubble_frozen:
  assumes "state s = REBUILDING" and "assigned s" and "i < length (voxels s)"
    and "getAt (rebuildTargets s) i = Some t" and "isRubble t"
  shows "\<exists>s1 s'. run nows s = Some s1 \<and> updatePhysics now s1 = Some s' \<and>
           rebuildTargets s' = rebuildTargets s \<and>
           (state s1 = REBUILDING \<longrightarrow> voxels s1 ! i = voxels s ! i \<and> voxels s' ! i = voxels s ! i)"
proof -
  from run_rubble [of s nows] assms(2) obtain s1 where
    a: "run nows s = Some s1" and b: "length (voxels s1) = length (voxels s)"
    and c: "rebuildTargets s1 = rebuildTargets s"
    and d: "state s1 = REBUILDING \<longrightarrow>
             (\<forall>j t. getAt (rebuildTargets s) j = Some t \<and> isRubble t \<longrightarrow>
                  voxels s1 ! j = voxels s ! j)" by blast
  have "state s1 = REBUILDING \<longrightarrow> assigned s1"
    using assms(2) b c by (simp add: assigned_def)
  from updatePhysics_step [OF this, of now] obtain s' where
    e: "updatePhysics now s1 = Some s'" and f: "rebuildTargets s' = rebuildTargets s1"
    and g: "state s1 = REBUILDING \<longrightarrow>
             (\<forall>j t. getAt (rebuildTargets s1) j = Some t \<and> isRubble t \<longrightarrow>
                  voxels s' ! j = voxels s1 ! j)" by blast
  have "state s1 = REBUILDING \<longrightarrow> voxels s1 ! i = voxels s ! i \<and> voxels s' ! i = voxels s ! i"
    using d g c assms(4,5) by auto
  then show ?thesis using a e f c by auto
qed

theorem rubble_frozen_witness:
  "state midRebuild = REBUILDING \<and> assigned midRebuild \<and> 1 < length (voxels midRebuild) \<and>
   getAt (rebuildTargets midRebuild) 1 = Some (rubbleAt airborne) \<and> isRubble (rubbleAt airborne) \<and>
   run [10, 20] midRebuild = Some midRebuild \<and>
   (\<exists>s1 s'. run [10, 20] midRebuild = Some s1 \<and> updatePhysics 30 s1 = Some s' \<and>
           rebuildTargets s' = rebuildTargets midRebuild \<and>
           (state s1 = REBUILDING \<longrightarrow> voxels s1 ! 1 = voxels midRebuild ! 1 \<and>
              voxels s' ! 1 = voxels midRebuild ! 1))"
proof -
  have r: "run [10, 20] midRebuild = Some midRebuild"
    by (simp add: run_def updatePhysics_def midRebuild_def easeStep_def getAt_def slotFor_def
        rubbleAt_def spot_def FLOOR_Y_def upt_rec [of _ "numeral _"])
  have h: "state midRebuild = REBUILDING" "assigned midRebuild" "1 < length (voxels midRebuild)"
    "getAt (rebuildTargets midRebuild) 1 = Some (rubbleAt airborne)" "isRubble (rubbleAt airborne)"
    by (simp_all add: midRebuild_def assigned_def getAt_def rubbleAt_def upt_rec [of _ "numeral _"])
  from rubble_frozen [OF h, of "[10, 20]" 30] h r show ?thesis by blast
qed

section \<open>Rebuild from any state\<close>

text \<open>
  C9. \<open>rebuild\<close> has no guard: from any engine state it sets the state to REBUILDING,
  calls the state callback with REBUILDING, sets the start time to the clock and replaces
  the assignments by the plan for the voxels and the targets, whatever the state, the
  assignments and the start time were before; the engine after it is never the engine
  before it. \<open>dismantle\<close> from DISMANTLING or REBUILDING changes nothing.
\<close>

theorem rebuild_unguarded:
  "state (rebuild H ts now s) = REBUILDING \<and>
   stateLog (rebuild H ts now s) = stateLog s @ [REBUILDING] \<and>
   rebuildStartTime (rebuild H ts now s) = now \<and>
   rebuildTargets (rebuild H ts now s) = plan H (voxels s) ts \<and>
   length (rebuildTargets (rebuild H ts now s)) = length (voxels s) \<and>
   voxels (rebuild H ts now s) = voxels s \<and>
   rebuild H ts now (s\<lparr>state := st, rebuildTargets := old, rebuildStartTime := t0\<rparr>) =
     rebuild H ts now s \<and>
   rebuild H ts now s \<noteq> s \<and>
   dismantle H (s\<lparr>state := DISMANTLING\<rparr>) = Some (s\<lparr>state := DISMANTLING\<rparr>) \<and>
   dismantle H (s\<lparr>state := REBUILDING\<rparr>) = Some (s\<lparr>state := REBUILDING\<rparr>)"
proof -
  have "stateLog (rebuild H ts now s) \<noteq> stateLog s" by (simp add: rebuild_def Let_def)
  then have "rebuild H ts now s \<noteq> s" by auto
  then show ?thesis
    by (simp add: rebuild_def Let_def dismantle_def plan_nth(1))
qed

theorem rebuild_unguarded_witness:
  "state (rebuild exHost [spot 0 3 0 0] 7 (engineOf [cube 0 0 (- 12) 0])) = REBUILDING \<and>
   stateLog (rebuild exHost [spot 0 3 0 0] 7 (engineOf [cube 0 0 (- 12) 0])) = [REBUILDING] \<and>
   rebuildStartTime (rebuild exHost [spot 0 3 0 0] 7 (engineOf [cube 0 0 (- 12) 0])) = 7 \<and>
   rebuildTargets (rebuild exHost [spot 0 3 0 0] 7 (engineOf [cube 0 0 (- 12) 0])) =
     [Some (slotFor (spot 0 3 0 0))] \<and>
   rebuild exHost [spot 0 3 0 0] 7 (engineOf [cube 0 0 (- 12) 0]) \<noteq> engineOf [cube 0 0 (- 12) 0]"
  using rebuild_unguarded [of exHost "[spot 0 3 0 0]" 7 "engineOf [cube 0 0 (- 12) 0]"]
  by (simp add: engineOf_def eval_plan slotFor_def)

section \<open>Rebuild towards nothing\<close>

text \<open>
  C10. With an empty list of targets \<open>rebuild\<close> marks every voxel rubble, at the
  voxel's own position and with delay 0; the physics step that follows finds nothing to
  wait for, sets the state back to STABLE, tells the state callback, and leaves every voxel
  as it was before the rebuild.
\<close>

theorem rebuild_empty:
  "rebuildTargets (rebuild H [] now s) = map (\<lambda>v. Some (rubbleAt v)) (voxels s) \<and>
   state (rebuild H [] now s) = REBUILDING \<and>
   voxels (rebuild H [] now s) = voxels s \<and>
   updatePhysics now' (rebuild H [] now s) =
     Some ((rebuild H [] now s)\<lparr>state := STABLE, stateLog := stateLog s @ [REBUILDING, STABLE]\<rparr>)"
proof -
  let ?s = "rebuild H [] now s"
  have t: "rebuildTargets ?s = map (\<lambda>v. Some (rubbleAt v)) (voxels s)"
    and v: "voxels ?s = voxels s" and st: "state ?s = REBUILDING"
    and lg: "stateLog ?s = stateLog s @ [REBUILDING]"
    by (simp_all add: rebuild_def Let_def plan_nil)
  have "\<forall>i \<in> set [0..<length (voxels ?s)]. \<exists>u. getAt (rebuildTargets ?s) i = Some u \<and> isRubble u"
    unfolding t v by (simp add: getAt_def rubbleAt_def)
  from ease_loop_rubble [OF this]
  have "forEachM (easeStep (now' - rebuildStartTime ?s) (rebuildTargets ?s))
          [0..<length (voxels ?s)] (voxels ?s, True) = Some (voxels ?s, True)" .
  then have "updatePhysics now' ?s =
      Some (?s\<lparr>voxels := voxels ?s, state := STABLE, stateLog := stateLog ?s @ [STABLE]\<rparr>)"
    using st by (simp add: updatePhysics_def Let_def)
  then show ?thesis using t v st lg by simp
qed

theorem rebuild_empty_witness:
  "rebuildTargets (rebuild exHost [] 7 (engineOf [airborne])) = [Some (rubbleAt airborne)] \<and>
   (\<exists>s'. updatePhysics 8 (rebuild exHost [] 7 (engineOf [airborne])) = Some s' \<and>
      state s' = STABLE \<and> voxels s' = [airborne] \<and> stateLog s' = [REBUILDING, STABLE])"
  using rebuild_empty [of exHost 7 "engineOf [airborne]" 8]
  by (simp add: engineOf_def)

section \<open>The planner\<close>

lemma matching_slot:
  assumes "i < length vs" and "snd (matching H vs ts) ! i = Some t"
  shows "t \<in> slotFor ` set ts"
proof -
  obtain av ms where m: "matching H vs ts = (av, ms)" by (cases "matching H vs ts")
  with matching_inv [of vs ts H] assms show ?thesis by (simp add: poolInv_def)
qed

lemma plan_entry:
  assumes "i < length vs"
  shows "(snd (matching H vs ts) ! i = None \<and> plan H vs ts ! i = Some (rubbleAt (vs ! i))) \<or>
         (\<exists>target \<in> set ts. snd (matching H vs ts) ! i = Some (slotFor target) \<and>
            plan H vs ts ! i = Some (slotFor target))"
proof (cases "snd (matching H vs ts) ! i")
  case None
  then show ?thesis using plan_nth(2) [OF assms, of H ts] by simp
next
  case (Some t)
  with matching_slot [OF assms Some] plan_nth(2) [OF assms, of H ts] show ?thesis by auto
qed

lemma getColorDist_formula:
  "getColorDist H c hex2 =
     sqrt ((0.3 * (cr c - cr (toColor H hex2)))\<^sup>2 + (0.59 * (cg c - cg (toColor H hex2)))\<^sup>2 +
           (0.11 * (cb c - cb (toColor H hex2)))\<^sup>2)"
proof -
  have "(a * w) * (a * w) = (w * a)\<^sup>2" for a w :: real
    by (simp add: power2_eq_square mult.commute)
  then show ?thesis unfolding getColorDist_def Let_def by (simp only:)
qed

text \<open>
  C5. The distance of a colour to a target colour is the square root of the sum of the
  squares of the three channel differences weighted by 0.3, 0.59 and 0.11. The planner is a
  function of the colours of the voxels, in slot order, and of the list of targets: two
  arrays of voxels with the same colours get the same assignments. The targets are served
  in their order, each on the pool the earlier ones left. For one target, either no untaken
  entry of the pool is within 9999 and nothing changes, or the entry \<open>k\<close> chosen is
  untaken, nearer than every untaken entry before it, none of which is within 0.01, and
  either within 0.01 itself or as near as any untaken entry; it is marked taken and its
  slot gets the position of the target.
\<close>

theorem planner_deterministic:
  "getColorDist H c hex2 =
     sqrt ((0.3 * (cr c - cr (toColor H hex2)))\<^sup>2 + (0.59 * (cg c - cg (toColor H hex2)))\<^sup>2 +
           (0.11 * (cb c - cb (toColor H hex2)))\<^sup>2) \<and>
   (map color vs = map color vs' \<longrightarrow>
      map assignmentOf (plan H vs ts) = map assignmentOf (plan H vs' ts)) \<and>
   plan H vs ts = fold (rubbleStep vs) [0..<length vs] (snd (matching H vs ts)) \<and>
   matching H vs [] = (pool vs, replicate (length vs) None) \<and>
   matching H vs (ts @ [target]) = assignTarget H target (matching H vs ts) \<and>
   ((assignTarget H target (av, ms) = (av, ms) \<and>
     (\<forall>j<length av. \<not> taken (av ! j) \<longrightarrow> 9999 \<le> getColorDist H (pcolor (av ! j)) (hex target))) \<or>
    (\<exists>k. chosen H av (hex target) k \<and>
       assignTarget H target (av, ms) =
         (av[k := (av ! k)\<lparr>taken := True\<rparr>], setAt ms (index (av ! k)) (slotFor target))))"
proof -
  have "map assignmentOf (plan H vs ts) = map assignmentOf (plan H vs' ts)"
    if c: "map color vs = map color vs'"
  proof (rule nth_equalityI)
    from c have l: "length vs = length vs'" by (rule map_eq_imp_length_eq)
    show "length (map assignmentOf (plan H vs ts)) = length (map assignmentOf (plan H vs' ts))"
      using l by (simp add: plan_nth(1))
    fix i assume "i < length (map assignmentOf (plan H vs ts))"
    then have i: "i < length vs" "i < length vs'" using l by (simp_all add: plan_nth(1))
    have m: "matching H vs' ts = matching H vs ts" using matching_colors [OF c] by simp
    have "assignmentOf (plan H vs ts ! i) = assignmentOf (plan H vs' ts ! i)"
      using plan_entry [OF i(1), of H ts] plan_entry [OF i(2), of H ts] unfolding m
      by (auto simp: assignmentOf_def rubbleAt_def)
    then show "map assignmentOf (plan H vs ts) ! i = map assignmentOf (plan H vs' ts) ! i"
      using i by (simp add: plan_nth(1))
  qed
  then have rest: "(map color vs = map color vs' \<longrightarrow>
      map assignmentOf (plan H vs ts) = map assignmentOf (plan H vs' ts)) \<and>
   plan H vs ts = fold (rubbleStep vs) [0..<length vs] (snd (matching H vs ts)) \<and>
   matching H vs [] = (pool vs, replicate (length vs) None) \<and>
   matching H vs (ts @ [target]) = assignTarget H target (matching H vs ts) \<and>
   ((assignTarget H target (av, ms) = (av, ms) \<and>
     (\<forall>j<length av. \<not> taken (av ! j) \<longrightarrow> 9999 \<le> getColorDist H (pcolor (av ! j)) (hex target))) \<or>
    (\<exists>k. chosen H av (hex target) k \<and>
       assignTarget H target (av, ms) =
         (av[k := (av ! k)\<lparr>taken := True\<rparr>], setAt ms (index (av ! k)) (slotFor target))))"
    using plan_matching [of H vs ts] assignTarget_cases [of H target av ms]
    by (simp add: matching_def)
  show ?thesis by (rule conjI [OF getColorDist_formula rest])
qed

text \<open>
  In \<open>paints\<close> the red voxel is at distance 0.3 and the two blue ones at 0.11 from
  black. The first black target passes the red voxel by and takes the first blue one, the
  second takes the other blue one, and the red voxel is rubble; moving the voxels changes
  nothing.
\<close>

theorem planner_deterministic_witness:
  "getColorDist exHost \<lparr>cr = 1, cg = 0, cb = 0\<rparr> 0 =
     sqrt ((0.3 * (cr \<lparr>cr = 1, cg = 0, cb = 0\<rparr> - cr (toColor exHost 0)))\<^sup>2 +
           (0.59 * (cg \<lparr>cr = 1, cg = 0, cb = 0\<rparr> - cg (toColor exHost 0)))\<^sup>2 +
           (0.11 * (cb \<lparr>cr = 1, cg = 0, cb = 0\<rparr> - cb (toColor exHost 0)))\<^sup>2) \<and>
   getColorDist exHost \<lparr>cr = 1, cg = 0, cb = 0\<rparr> 0 = 3 / 10 \<and>
   getColorDist exHost \<lparr>cr = 0, cg = 0, cb = 1\<rparr> 0 = 11 / 100 \<and>
   map color (paints 0) = map color (paints 5) \<and>
   map assignmentOf (plan exHost (paints 0) [spot 0 3 0 0, spot 0 18 0 0]) =
   map assignmentOf (plan exHost (paints 5) [spot 0 3 0 0, spot 0 18 0 0]) \<and>
   map assignmentOf (plan exHost (paints 0) [spot 0 3 0 0, spot 0 18 0 0]) =
     [None, Some (0, 3, 0, 800), Some (0, 18, 0, 1600)] \<and>
   assignTarget exHost (spot 0 3 0 0) (pool (paints 0), [None, None, None]) =
     ((pool (paints 0))[1 := (pool (paints 0) ! 1)\<lparr>taken := True\<rparr>],
      [None, Some (slotFor (spot 0 3 0 0)), None]) \<and>
   (\<exists>k. chosen exHost (pool (paints 0)) 0 k \<and>
      assignTarget exHost (spot 0 3 0 0) (pool (paints 0), [None, None, None]) =
        ((pool (paints 0))[k := (pool (paints 0) ! k)\<lparr>taken := True\<rparr>],
         setAt [None, None, None] (index (pool (paints 0) ! k)) (slotFor (spot 0 3 0 0))))"
proof -
  let ?ts = "[spot 0 3 0 0, spot 0 18 0 0]"
  note t = planner_deterministic [of exHost "\<lparr>cr = 1, cg = 0, cb = 0\<rparr>" 0 "paints 0" "paints 5"
      ?ts "spot 0 3 0 0" "pool (paints 0)" "[None, None, None]"]
  from t have f: "getColorDist exHost \<lparr>cr = 1, cg = 0, cb = 0\<rparr> 0 =
     sqrt ((0.3 * (cr \<lparr>cr = 1, cg = 0, cb = 0\<rparr> - cr (toColor exHost 0)))\<^sup>2 +
           (0.59 * (cg \<lparr>cr = 1, cg = 0, cb = 0\<rparr> - cg (toColor exHost 0)))\<^sup>2 +
           (0.11 * (cb \<lparr>cr = 1, cg = 0, cb = 0\<rparr> - cb (toColor exHost 0)))\<^sup>2)"
    by (rule conjunct1)
  have c: "map color (paints 0) = map color (paints 5)" by (simp add: paints_def cube_def)
  from t c have eq: "map assignmentOf (plan exHost (paints 0) ?ts) =
      map assignmentOf (plan exHost (paints 5) ?ts)" by blast
  have e: "map assignmentOf (plan exHost (paints 0) ?ts) =
      [None, Some (0, 3, 0, 800), Some (0, 18, 0, 1600)]"
    by (simp add: eval_plan paints_def dist_red dist_blue assignmentOf_def)
  have a: "assignTarget exHost (spot 0 3 0 0) (pool (paints 0), [None, None, None]) =
     ((pool (paints 0))[1 := (pool (paints 0) ! 1)\<lparr>taken := True\<rparr>],
      [None, Some (slotFor (spot 0 3 0 0)), None])"
    by (simp add: eval_plan pool_def paints_def dist_red dist_blue slotFor_def)
  have hx: "hex (spot 0 3 0 0) = 0" by (simp add: spot_def)
  have "\<not> (\<forall>j<length (pool (paints 0)). \<not> taken (pool (paints 0) ! j) \<longrightarrow>
            9999 \<le> getColorDist exHost (pcolor (pool (paints 0) ! j)) (hex (spot 0 3 0 0)))"
  proof
    assume "\<forall>j<length (pool (paints 0)). \<not> taken (pool (paints 0) ! j) \<longrightarrow>
            9999 \<le> getColorDist exHost (pcolor (pool (paints 0) ! j)) (hex (spot 0 3 0 0))"
    then have "\<not> taken (pool (paints 0) ! 0) \<longrightarrow>
            9999 \<le> getColorDist exHost (pcolor (pool (paints 0) ! 0)) (hex (spot 0 3 0 0))"
      by (simp add: paints_def)
    then show False by (simp add: pool_def enumerate_eq_zip paints_def cube_def hx dist_red)
  qed
  with t have ex: "\<exists>k. chosen exHost (pool (paints 0)) (hex (spot 0 3 0 0)) k \<and>
      assignTarget exHost (spot 0 3 0 0) (pool (paints 0), [None, None, None]) =
        ((pool (paints 0))[k := (pool (paints 0) ! k)\<lparr>taken := True\<rparr>],
         setAt [None, None, None] (index (pool (paints 0) ! k)) (slotFor (spot 0 3 0 0)))"
    by blast
  from f dist_red dist_blue c eq e a ex show ?thesis unfolding hx by blast
qed

text \<open>
  C6. When there are more voxels than targets (and colours have their channels between
  0 and 1), the plan marks as rubble as many slots as there are voxels beyond the targets,
  and matches one slot to each target. A target that finds every entry of the pool taken
  changes nothing. The rebuild step turns the engine STABLE exactly when every slot that is
  not rubble has settled: a rubble slot has no part in the check.
\<close>

theorem rubble_count:
  assumes "length ts < length vs"
    and "\<forall>v \<in> set vs. inGamut (color v)" and "\<forall>h. inGamut (toColor H h)"
    and "list_all taken av"
    and "state s = REBUILDING" and "assigned s"
  shows "length (filter marksRubble (plan H vs ts)) = length vs - length ts \<and>
         length (filter (\<lambda>m. \<not> marksRubble m) (plan H vs ts)) = length ts \<and>
         assignTarget H target (av, ms) = (av, ms) \<and>
         (\<exists>s'. updatePhysics now s = Some s' \<and>
            (state s' = STABLE \<longleftrightarrow>
               (\<forall>i<length (voxels s). \<forall>t. getAt (rebuildTargets s) i = Some t \<longrightarrow>
                  isRubble t \<or> settled (now - rebuildStartTime s) t (voxels s ! i))))"
proof -
  obtain av' ms' where m: "matching H vs ts = (av', ms')" by (cases "matching H vs ts")
  from matching_inv [of vs ts H] m have inv: "poolInv vs (set ts) (av', ms')" by simp
  have near: "\<forall>h. \<forall>j<length vs. getColorDist H (color (vs ! j)) h < 9999"
    using assms(2,3) by (simp add: dist_gamut)
  have "card (free (fst (matching H vs ts))) = card (free (fst (pool vs, replicate (length vs) (None :: RebuildTarget option)))) - length ts"
    unfolding matching_def by (rule free_fold [OF poolInv_init [of vs "set ts"] subset_refl near])
  moreover have "free (pool vs) = {..<length vs}"
    by (auto simp: free_def pool_nth)
  ultimately have fr: "card (free av') = length vs - length ts" using m by simp
  have "{i. i < length (plan H vs ts) \<and> marksRubble (plan H vs ts ! i)} = free av'"
  proof -
    have "marksRubble (plan H vs ts ! i) \<longleftrightarrow> \<not> taken (av' ! i)" if "i < length vs" for i
      using plan_entry [OF that, of H ts] inv that m
      by (auto simp: poolInv_def marksRubble_def rubbleAt_def slotFor_def)
    then show ?thesis using inv by (auto simp: free_def plan_nth(1) poolInv_def)
  qed
  then have rub: "length (filter marksRubble (plan H vs ts)) = length vs - length ts"
    using fr by (simp add: length_filter_conv_card)
  have "length (filter marksRubble (plan H vs ts)) +
        length (filter (\<lambda>m. \<not> marksRubble m) (plan H vs ts)) = length vs"
    using sum_length_filter_compl [of marksRubble "plan H vs ts"] by (simp add: plan_nth(1))
  then have mat: "length (filter (\<lambda>m. \<not> marksRubble m) (plan H vs ts)) = length ts"
    using rub assms(1) by simp
  have "\<not> chosen H av (hex target) k" for k
    using assms(4) by (auto simp: chosen_def list_all_length)
  then have ex: "assignTarget H target (av, ms) = (av, ms)"
    using assignTarget_cases [of H target av ms] by blast
  from rub mat ex updatePhysics_done [OF assms(5,6), of now] show ?thesis by blast
qed

theorem rubble_count_witness:
  "length [spot 0 3 0 0, spot 0 18 0 0] < length [cube 0 0 (- 12) 0, cube 1 1 (- 12) 0, cube 2 5 5 5] \<and>
   list_all taken [\<lparr>index = 0, pcolor = \<lparr>cr = 0, cg = 0, cb = 0\<rparr>, taken = True\<rparr>] \<and>
   state midRebuild = REBUILDING \<and> assigned midRebuild \<and>
   plan exHost [cube 0 0 (- 12) 0, cube 1 1 (- 12) 0, cube 2 5 5 5] [spot 0 3 0 0, spot 0 18 0 0] =
     [Some (slotFor (spot 0 3 0 0)), Some (slotFor (spot 0 18 0 0)), Some (rubbleAt (cube 2 5 5 5))] \<and>
   length (filter marksRubble
     (plan exHost [cube 0 0 (- 12) 0, cube 1 1 (- 12) 0, cube 2 5 5 5] [spot 0 3 0 0, spot 0 18 0 0])) = 1 \<and>
   length (filter (\<lambda>m. \<not> marksRubble m)
     (plan exHost [cube 0 0 (- 12) 0, cube 1 1 (- 12) 0, cube 2 5 5 5] [spot 0 3 0 0, spot 0 18 0 0])) = 2 \<and>
   assignTarget exHost (spot 0 3 0 0)
     ([\<lparr>index = 0, pcolor = \<lparr>cr = 0, cg = 0, cb = 0\<rparr>, taken = True\<rparr>], [Some (slotFor (spot 1 1 1 0))]) =
     ([\<lparr>index = 0, pcolor = \<lparr>cr = 0, cg = 0, cb = 0\<rparr>, taken = True\<rparr>], [Some (slotFor (spot 1 1 1 0))]) \<and>
   (\<exists>s'. updatePhysics 30 midRebuild = Some s' \<and>
            (state s' = STABLE \<longleftrightarrow>
               (\<forall>i<length (voxels midRebuild). \<forall>t. getAt (rebuildTargets midRebuild) i = Some t \<longrightarrow>
                  isRubble t \<or> settled (30 - rebuildStartTime midRebuild) t (voxels midRebuild ! i))))"
proof -
  let ?vs = "[cube 0 0 (- 12) 0, cube 1 1 (- 12) 0, cube 2 5 5 5]"
  let ?ts = "[spot 0 3 0 0, spot 0 18 0 0]"
  let ?av = "[\<lparr>index = 0, pcolor = \<lparr>cr = 0, cg = 0, cb = 0\<rparr>, taken = True\<rparr>]"
  have g: "\<forall>h. inGamut (toColor exHost h)"
    by (simp add: exHost_def hexRGB_gamut)
  have h: "length ?ts < length ?vs" "\<forall>v \<in> set ?vs. inGamut (color v)"
    "\<forall>h. inGamut (toColor exHost h)" "list_all taken ?av"
    "state midRebuild = REBUILDING" "assigned midRebuild"
    using g by (simp_all add: cube_def inGamut_def midRebuild_def assigned_def
        getAt_def upt_rec [of _ "numeral _"])
  have e: "plan exHost ?vs ?ts =
     [Some (slotFor (spot 0 3 0 0)), Some (slotFor (spot 0 18 0 0)), Some (rubbleAt (cube 2 5 5 5))]"
    by (simp add: eval_plan slotFor_def rubbleAt_def)
  from rubble_count [OF h, of "spot 0 3 0 0" "[Some (slotFor (spot 1 1 1 0))]" 30] h(1,4,5,6) e
  show ?thesis by simp
qed

text \<open>
  C7. Every matched slot of a rebuild holds the position of one of the targets and the
  delay \<open>max 0 ((y - FLOOR_Y) / 15) * 800\<close> for the height \<open>y\<close> of that target; of two
  matched slots, the one with the lower target has the smaller or the same delay.
\<close>

theorem delay_monotone:
  assumes "i < length (voxels s)" and "j < length (voxels s)"
    and "rebuildTargets (rebuild H ts now s) ! i = Some t1"
    and "rebuildTargets (rebuild H ts now s) ! j = Some t2"
    and "\<not> isRubble t1" and "\<not> isRubble t2" and "y t1 < y t2"
  shows "(\<exists>target \<in> set ts. t1 = slotFor target) \<and> (\<exists>target \<in> set ts. t2 = slotFor target) \<and>
         delay t1 = max 0 ((y t1 - FLOOR_Y) / 15) * 800 \<and>
         delay t2 = max 0 ((y t2 - FLOOR_Y) / 15) * 800 \<and>
         delay t1 \<le> delay t2"
proof -
  have p: "rebuildTargets (rebuild H ts now s) = plan H (voxels s) ts"
    by (simp add: rebuild_def Let_def)
  have a: "\<exists>target \<in> set ts. t1 = slotFor target"
    using plan_entry [OF assms(1), of H ts] assms(3,5) unfolding p
    by (auto simp: rubbleAt_def)
  have b: "\<exists>target \<in> set ts. t2 = slotFor target"
    using plan_entry [OF assms(2), of H ts] assms(4,6) unfolding p
    by (auto simp: rubbleAt_def)
  from a have d1: "delay t1 = max 0 ((y t1 - FLOOR_Y) / 15) * 800" by (auto simp: slotFor_def)
  from b have d2: "delay t2 = max 0 ((y t2 - FLOOR_Y) / 15) * 800" by (auto simp: slotFor_def)
  have "max 0 ((y t1 - FLOOR_Y) / 15) \<le> max 0 ((y t2 - FLOOR_Y) / 15)"
    using assms(7) by (simp add: max_def divide_le_cancel)
  then have "delay t1 \<le> delay t2" unfolding d1 d2 by simp
  with a b d1 d2 show ?thesis by blast
qed

theorem delay_monotone_witness:
  "rebuildTargets (rebuild exHost [spot 0 3 0 0, spot 0 18 0 0] 7
      (engineOf [cube 0 0 (- 12) 0, cube 1 1 (- 12) 0])) =
     [Some (slotFor (spot 0 3 0 0)), Some (slotFor (spot 0 18 0 0))] \<and>
   \<not> isRubble (slotFor (spot 0 3 0 0)) \<and> \<not> isRubble (slotFor (spot 0 18 0 0)) \<and>
   y (slotFor (spot 0 3 0 0)) < y (slotFor (spot 0 18 0 0)) \<and>
   delay (slotFor (spot 0 3 0 0)) = 800 \<and> delay (slotFor (spot 0 18 0 0)) = 1600 \<and>
   delay (slotFor (spot 0 3 0 0)) \<le> delay (slotFor (spot 0 18 0 0))"
proof -
  let ?s = "engineOf [cube 0 0 (- 12) 0, cube 1 1 (- 12) 0]"
  let ?ts = "[spot 0 3 0 0, spot 0 18 0 0]"
  have e: "rebuildTargets (rebuild exHost ?ts 7 ?s) =
     [Some (slotFor (spot 0 3 0 0)), Some (slotFor (spot 0 18 0 0))]"
    by (simp add: rebuild_def engineOf_def eval_plan slotFor_def)
  have h: "0 < length (voxels ?s)" "1 < length (voxels ?s)"
    "rebuildTargets (rebuild exHost ?ts 7 ?s) ! 0 = Some (slotFor (spot 0 3 0 0))"
    "rebuildTargets (rebuild exHost ?ts 7 ?s) ! 1 = Some (slotFor (spot 0 18 0 0))"
    "\<not> isRubble (slotFor (spot 0 3 0 0))" "\<not> isRubble (slotFor (spot 0 18 0 0))"
    "y (slotFor (spot 0 3 0 0)) < y (slotFor (spot 0 18 0 0))"
    unfolding e by (simp_all add: engineOf_def slotFor_def spot_def)
  have d: "delay (slotFor (spot 0 3 0 0)) = 800" "delay (slotFor (spot 0 18 0 0)) = 1600"
    by (simp_all add: slotFor_def spot_def FLOOR_Y_def)
  from delay_monotone [OF h] e h(5,6,7) d show ?thesis by blast
qed

section \<open>The structural integrity pass\<close>

subsection \<open>Voxels that differ in the mark only\<close>

lemma regrounded:
  "v\<lparr>grounded := False\<rparr> = w\<lparr>grounded := False\<rparr> \<Longrightarrow> v = w\<lparr>grounded := grounded v\<rparr>"
  by (cases v, cases w) simp

lemma clear_nth:
  assumes "clear vs = clear ws" and "i < length ws"
  shows "vs ! i = (ws ! i)\<lparr>grounded := grounded (vs ! i)\<rparr>"
proof -
  have l: "length vs = length ws"
    using assms(1) unfolding clear_def by (rule map_eq_imp_length_eq)
  have "clear vs ! i = clear ws ! i" using assms(1) by simp
  then have "(vs ! i)\<lparr>grounded := False\<rparr> = (ws ! i)\<lparr>grounded := False\<rparr>"
    using assms(2) l by (simp add: clear_def)
  then show ?thesis by (rule regrounded)
qed

lemma clear_length: "clear vs = clear ws \<Longrightarrow> length vs = length ws"
  unfolding clear_def by (rule map_eq_imp_length_eq)

lemma clear_fields:
  assumes "clear vs = clear ws" and "i < length ws"
  shows "isFalling (vs ! i) = isFalling (ws ! i)" and "cellOf (vs ! i) = cellOf (ws ! i)"
    and "anchor (vs ! i) = anchor (ws ! i)" and "vid (vs ! i) = vid (ws ! i)"
proof -
  let ?g = "grounded (vs ! i)"
  note e = clear_nth [OF assms]
  show "isFalling (vs ! i) = isFalling (ws ! i)" by (subst e) simp
  show "cellOf (vs ! i) = cellOf (ws ! i)" by (subst e) (simp add: cellOf_def)
  show "anchor (vs ! i) = anchor (ws ! i)" by (subst e) (simp add: anchor_def)
  show "vid (vs ! i) = vid (ws ! i)" by (subst e) simp
qed

lemma clear_mark:
  "i < length vs \<Longrightarrow> clear (vs[i := (vs ! i)\<lparr>grounded := g\<rparr>]) = clear vs"
  by (auto simp: clear_def nth_list_update intro!: nth_equalityI)

lemma clear_clear [simp]: "clear (clear vs) = clear vs"
  by (simp add: clear_def)

subsection \<open>The grid map\<close>

lemma gridMap_upto:
  "k \<le> length vs \<Longrightarrow>
   fold (mapStep vs) [0..<k] Map.empty c = Some i \<longleftrightarrow>
     i < k \<and> \<not> isFalling (vs ! i) \<and> cellOf (vs ! i) = c \<and>
     (\<forall>j. i < j \<and> j < k \<and> \<not> isFalling (vs ! j) \<longrightarrow> cellOf (vs ! j) \<noteq> c)"
proof (induction k arbitrary: i)
  case 0
  then show ?case by simp
next
  case (Suc k)
  let ?m = "fold (mapStep vs) [0..<k] Map.empty"
  have IH: "?m c = Some i \<longleftrightarrow>
     i < k \<and> \<not> isFalling (vs ! i) \<and> cellOf (vs ! i) = c \<and>
     (\<forall>j. i < j \<and> j < k \<and> \<not> isFalling (vs ! j) \<longrightarrow> cellOf (vs ! j) \<noteq> c)" for i
    using Suc by simp
  have step: "fold (mapStep vs) [0..<Suc k] Map.empty = mapStep vs k ?m" by simp
  show ?case
  proof (cases "isFalling (vs ! k)")
    case True
    then have "mapStep vs k ?m = ?m" by (simp add: mapStep_def)
    then show ?thesis unfolding step using IH True
      by (auto simp: less_Suc_eq)
  next
    case False
    then have m: "mapStep vs k ?m = ?m(cellOf (vs ! k) \<mapsto> k)" by (simp add: mapStep_def)
    show ?thesis
    proof (cases "c = cellOf (vs ! k)")
      case True
      then have "mapStep vs k ?m c = Some i \<longleftrightarrow> i = k" using m by auto
      moreover have "(i < Suc k \<and> \<not> isFalling (vs ! i) \<and> cellOf (vs ! i) = c \<and>
         (\<forall>j. i < j \<and> j < Suc k \<and> \<not> isFalling (vs ! j) \<longrightarrow> cellOf (vs ! j) \<noteq> c)) \<longleftrightarrow> i = k"
        using True False by (auto simp: less_Suc_eq)
      ultimately show ?thesis unfolding step by simp
    next
      case ne: False
      then have "mapStep vs k ?m c = ?m c" using m by simp
      moreover have "(i < Suc k \<and> \<not> isFalling (vs ! i) \<and> cellOf (vs ! i) = c \<and>
         (\<forall>j. i < j \<and> j < Suc k \<and> \<not> isFalling (vs ! j) \<longrightarrow> cellOf (vs ! j) \<noteq> c)) \<longleftrightarrow>
         (i < k \<and> \<not> isFalling (vs ! i) \<and> cellOf (vs ! i) = c \<and>
         (\<forall>j. i < j \<and> j < k \<and> \<not> isFalling (vs ! j) \<longrightarrow> cellOf (vs ! j) \<noteq> c))"
        using ne by (auto simp: less_Suc_eq)
      ultimately show ?thesis unfolding step using IH by simp
    qed
  qed
qed

lemma gridMap_iff:
  "gridMap vs c = Some i \<longleftrightarrow>
     i < length vs \<and> \<not> isFalling (vs ! i) \<and> cellOf (vs ! i) = c \<and>
     (\<forall>j. i < j \<and> j < length vs \<and> \<not> isFalling (vs ! j) \<longrightarrow> cellOf (vs ! j) \<noteq> c)"
  unfolding gridMap_def by (rule gridMap_upto) simp

lemma gridMap_clear:
  assumes "clear vs = clear ws"
  shows "gridMap vs = gridMap ws"
proof -
  note l = clear_length [OF assms]
  have "fold (mapStep vs) [0..<length ws] Map.empty = fold (mapStep ws) [0..<length ws] Map.empty"
  proof (rule fold_cong [OF refl refl])
    fix i assume "i \<in> set [0..<length ws]"
    then have i: "i < length ws" by simp
    show "mapStep vs i = mapStep ws i"
      using clear_fields(1,2) [OF assms i] by (simp add: mapStep_def fun_eq_iff)
  qed
  then show ?thesis by (simp add: gridMap_def l)
qed

subsection \<open>The anchors\<close>

lemma anchors_upto:
  "k \<le> length vs \<Longrightarrow>
   \<exists>vs'. fold anchorStep [0..<k] (vs, []) = (vs', filter (\<lambda>i. anchor (vs ! i)) [0..<k]) \<and>
     length vs' = length vs \<and>
     (\<forall>i<length vs. vs' ! i = (if i < k \<and> anchor (vs ! i) then (vs ! i)\<lparr>grounded := True\<rparr> else vs ! i))"
proof (induction k)
  case 0
  then show ?case by simp
next
  case (Suc k)
  then obtain vs' where
    f: "fold anchorStep [0..<k] (vs, []) = (vs', filter (\<lambda>i. anchor (vs ! i)) [0..<k])"
    and l: "length vs' = length vs"
    and n: "\<forall>i<length vs. vs' ! i = (if i < k \<and> anchor (vs ! i) then (vs ! i)\<lparr>grounded := True\<rparr> else vs ! i)"
    by auto
  have k: "k < length vs" using Suc.prems by simp
  then have vk: "vs' ! k = vs ! k" using n by simp
  have step: "fold anchorStep [0..<Suc k] (vs, []) =
      anchorStep k (vs', filter (\<lambda>i. anchor (vs ! i)) [0..<k])"
    using f by simp
  have lt: "i < Suc k \<longleftrightarrow> i < k" if "i \<noteq> k" for i using that by auto
  show ?case
  proof (cases "anchor (vs ! k)")
    case True
    let ?w = "vs'[k := (vs ! k)\<lparr>grounded := True\<rparr>]"
    have "anchorStep k (vs', filter (\<lambda>i. anchor (vs ! i)) [0..<k]) =
        (?w, filter (\<lambda>i. anchor (vs ! i)) [0..<Suc k])"
      using vk True by (simp add: anchorStep_def anchor_def Let_def)
    moreover have "length ?w = length vs" using l by simp
    moreover have "?w ! i = (if i < Suc k \<and> anchor (vs ! i) then (vs ! i)\<lparr>grounded := True\<rparr> else vs ! i)"
      if i: "i < length vs" for i
    proof (cases "i = k")
      case e: True
      then show ?thesis using True k l by simp
    next
      case ne: False
      then have "?w ! i = vs' ! i" by simp
      then show ?thesis using n i lt [OF ne] by simp
    qed
    ultimately show ?thesis unfolding step by blast
  next
    case False
    have "anchorStep k (vs', filter (\<lambda>i. anchor (vs ! i)) [0..<k]) =
        (vs', filter (\<lambda>i. anchor (vs ! i)) [0..<Suc k])"
      using vk False by (auto simp: anchorStep_def anchor_def Let_def)
    moreover have "vs' ! i = (if i < Suc k \<and> anchor (vs ! i) then (vs ! i)\<lparr>grounded := True\<rparr> else vs ! i)"
      if i: "i < length vs" for i
    proof (cases "i = k")
      case e: True
      then show ?thesis using False vk by simp
    next
      case ne: False
      then show ?thesis using n i lt [OF ne] by simp
    qed
    ultimately show ?thesis unfolding step using l by blast
  qed
qed

subsection \<open>The traversal\<close>

lemma markingD:
  assumes "marking vs0 vs q"
  shows "clear vs = clear vs0"
    and "\<And>i. i \<in> set q \<Longrightarrow> i < length vs0"
    and "\<And>i. i \<in> set q \<Longrightarrow> supported vs0 i"
    and "\<And>i. i < length vs0 \<Longrightarrow> grounded (vs ! i) \<Longrightarrow> \<not> isFalling (vs0 ! i)"
    and "\<And>i. i < length vs0 \<Longrightarrow> grounded (vs ! i) \<Longrightarrow> i \<in> set q"
    and "\<And>i. i < length vs0 \<Longrightarrow> anchor (vs0 ! i) \<Longrightarrow> grounded (vs ! i)"
  using assms unfolding marking_def by blast+

lemma gridMap_range:
  "gridMap vs c = Some i \<Longrightarrow> i < length vs \<and> \<not> isFalling (vs ! i)"
  by (simp add: gridMap_iff)

lemma visit_pack:
  assumes "visit M v d (vs, q) = Some (vs', q')" and "marking vs0 vs' q'" and "q' = q @ new"
    and "\<forall>i<length vs0. grounded (vs ! i) \<longrightarrow> grounded (vs' ! i)"
    and "\<forall>i. M K = Some i \<longrightarrow> grounded (vs' ! i)"
  shows "\<exists>vs' q'. visit M v d (vs, q) = Some (vs', q') \<and> marking vs0 vs' q' \<and>
           (\<exists>new. q' = q @ new) \<and>
           (\<forall>i<length vs0. grounded (vs ! i) \<longrightarrow> grounded (vs' ! i)) \<and>
           (\<forall>i. M K = Some i \<longrightarrow> grounded (vs' ! i))"
  using assms by blast

lemma visit_marking:
  assumes inv: "marking vs0 vs q"
    and c: "c < length vs0" "supported vs0 c" "cellOf v = cellOf (vs0 ! c)"
    and d: "d \<in> set neighbors"
  shows "\<exists>vs' q'. visit (gridMap vs0) v d (vs, q) = Some (vs', q') \<and> marking vs0 vs' q' \<and>
           (\<exists>new. q' = q @ new) \<and>
           (\<forall>i<length vs0. grounded (vs ! i) \<longrightarrow> grounded (vs' ! i)) \<and>
           (\<forall>i. gridMap vs0 (shift (cellOf (vs0 ! c)) d) = Some i \<longrightarrow> grounded (vs' ! i))"
proof -
  obtain dx dy dz where dd: "d = (dx, dy, dz)" by (cases d) auto
  let ?key = "(js_round (x v) + dx, js_round (y v) + dy, js_round (z v) + dz)"
  have key: "shift (cellOf (vs0 ! c)) d = ?key"
    using c(3) [symmetric] dd by (simp add: cellOf_def)
  from inv have cl: "clear vs = clear vs0"
    and q_ok: "\<forall>i \<in> set q. i < length vs0 \<and> supported vs0 i"
    and g_ok: "\<forall>i<length vs0. grounded (vs ! i) \<longrightarrow> \<not> isFalling (vs0 ! i) \<and> i \<in> set q"
    and a_ok: "\<forall>i<length vs0. anchor (vs0 ! i) \<longrightarrow> grounded (vs ! i)"
    by (simp_all add: marking_def)
  note len = clear_length [OF cl]
  have same: "q = q @ []" "\<forall>i<length vs0. grounded (vs ! i) \<longrightarrow> grounded (vs ! i)"
    by simp_all
  show ?thesis
  proof (cases "gridMap vs0 ?key")
    case None
    then have a: "visit (gridMap vs0) v d (vs, q) = Some (vs, q)"
      by (simp add: visit_def dd)
    have b: "\<forall>i. gridMap vs0 (shift (cellOf (vs0 ! c)) d) = Some i \<longrightarrow> grounded (vs ! i)"
      using None key by simp
    show ?thesis by (rule visit_pack [OF a inv same b])
  next
    case (Some ni)
    from gridMap_range [OF Some] have ni: "ni < length vs0" "\<not> isFalling (vs0 ! ni)" by simp_all
    have nf: "\<not> isFalling (vs ! ni)" using clear_fields(1) [OF cl ni(1)] ni(2) by simp
    show ?thesis
    proof (cases "grounded (vs ! ni)")
      case True
      then have a: "visit (gridMap vs0) v d (vs, q) = Some (vs, q)"
        using Some ni len by (simp add: visit_def dd Let_def)
      have b: "\<forall>i. gridMap vs0 (shift (cellOf (vs0 ! c)) d) = Some i \<longrightarrow> grounded (vs ! i)"
        using Some key True by simp
      show ?thesis by (rule visit_pack [OF a inv same b])
    next
      case False
      let ?vs = "vs[ni := (vs ! ni)\<lparr>grounded := True\<rparr>]"
      have run: "visit (gridMap vs0) v d (vs, q) = Some (?vs, q @ [ni])"
        using Some ni len nf False by (simp add: visit_def dd Let_def)
      have nth: "grounded (?vs ! i) \<longleftrightarrow> i = ni \<or> grounded (vs ! i)" if "i < length vs0" for i
        using that ni(1) len by (cases "i = ni") simp_all
      have sup: "supported vs0 ni"
        using supported.carried [OF c(2) d] Some key by simp
      have "clear ?vs = clear vs0"
        using clear_mark [of ni vs True] ni(1) len cl by simp
      moreover have "\<forall>i \<in> set (q @ [ni]). i < length vs0 \<and> supported vs0 i"
        using q_ok ni(1) sup by simp
      moreover have "\<forall>i<length vs0. grounded (?vs ! i) \<longrightarrow> \<not> isFalling (vs0 ! i) \<and> i \<in> set (q @ [ni])"
      proof (intro allI impI)
        fix i assume i: "i < length vs0" and g: "grounded (?vs ! i)"
        show "\<not> isFalling (vs0 ! i) \<and> i \<in> set (q @ [ni])"
        proof (cases "i = ni")
          case True
          then show ?thesis using ni(2) by simp
        next
          case False
          then have "grounded (vs ! i)" using nth [OF i] g by simp
          then show ?thesis using g_ok i by simp
        qed
      qed
      moreover have "\<forall>i<length vs0. anchor (vs0 ! i) \<longrightarrow> grounded (?vs ! i)"
        using a_ok nth by blast
      ultimately have m: "marking vs0 ?vs (q @ [ni])" by (simp add: marking_def)
      have g: "\<forall>i<length vs0. grounded (vs ! i) \<longrightarrow> grounded (?vs ! i)" using nth by simp
      have b: "\<forall>i. gridMap vs0 (shift (cellOf (vs0 ! c)) d) = Some i \<longrightarrow> grounded (?vs ! i)"
        using Some key nth ni(1) by simp
      show ?thesis by (rule visit_pack [OF run m refl g b])
    qed
  qed
qed

lemma visits_marking:
  assumes c: "c < length vs0" "supported vs0 c" "cellOf v = cellOf (vs0 ! c)"
  shows "marking vs0 vs q \<Longrightarrow> set ds \<subseteq> set neighbors \<Longrightarrow>
         \<exists>vs' q'. forEachM (visit (gridMap vs0) v) ds (vs, q) = Some (vs', q') \<and> marking vs0 vs' q' \<and>
           (\<exists>new. q' = q @ new) \<and>
           (\<forall>i<length vs0. grounded (vs ! i) \<longrightarrow> grounded (vs' ! i)) \<and>
           (\<forall>d \<in> set ds. \<forall>i. gridMap vs0 (shift (cellOf (vs0 ! c)) d) = Some i \<longrightarrow> grounded (vs' ! i))"
proof (induction ds arbitrary: vs q)
  case Nil
  then show ?case by simp
next
  case (Cons d ds)
  then have d: "d \<in> set neighbors" and ds: "set ds \<subseteq> set neighbors" by simp_all
  from visit_marking [OF Cons.prems(1) c d] obtain vs1 q1 new1 where
    s1: "visit (gridMap vs0) v d (vs, q) = Some (vs1, q1)" and m1: "marking vs0 vs1 q1"
    and p1: "q1 = q @ new1"
    and g1: "\<forall>i<length vs0. grounded (vs ! i) \<longrightarrow> grounded (vs1 ! i)"
    and n1: "\<forall>i. gridMap vs0 (shift (cellOf (vs0 ! c)) d) = Some i \<longrightarrow> grounded (vs1 ! i)"
    by blast
  from Cons.IH [OF m1 ds] obtain vs' q' new2 where
    s2: "forEachM (visit (gridMap vs0) v) ds (vs1, q1) = Some (vs', q')" and m2: "marking vs0 vs' q'"
    and p2: "q' = q1 @ new2"
    and g2: "\<forall>i<length vs0. grounded (vs1 ! i) \<longrightarrow> grounded (vs' ! i)"
    and n2: "\<forall>e \<in> set ds. \<forall>i. gridMap vs0 (shift (cellOf (vs0 ! c)) e) = Some i \<longrightarrow> grounded (vs' ! i)"
    by blast
  have run: "forEachM (visit (gridMap vs0) v) (d # ds) (vs, q) = Some (vs', q')"
    using s1 s2 by simp
  have pre: "q' = q @ (new1 @ new2)" using p1 p2 by simp
  have mono: "\<forall>i<length vs0. grounded (vs ! i) \<longrightarrow> grounded (vs' ! i)" using g1 g2 by blast
  have "\<forall>i. gridMap vs0 (shift (cellOf (vs0 ! c)) d) = Some i \<longrightarrow> grounded (vs' ! i)"
  proof (intro allI impI)
    fix i assume a: "gridMap vs0 (shift (cellOf (vs0 ! c)) d) = Some i"
    then have "i < length vs0" using gridMap_range by blast
    then show "grounded (vs' ! i)" using a n1 g2 by blast
  qed
  then have "\<forall>e \<in> set (d # ds). \<forall>i. gridMap vs0 (shift (cellOf (vs0 ! c)) e) = Some i \<longrightarrow>
      grounded (vs' ! i)" using n2 by simp
  with run m2 pre mono show ?case by blast
qed

text \<open>The traversal returns, and it marks the reached voxels and no other.\<close>

lemma bfs_marking:
  assumes "marking vs0 vs q" and "h \<le> length q"
    and "\<forall>k<h. \<forall>d \<in> set neighbors. \<forall>i.
           gridMap vs0 (shift (cellOf (vs0 ! (q ! k))) d) = Some i \<longrightarrow> grounded (vs ! i)"
  shows "\<exists>vs'. bfs (gridMap vs0) vs q h = Some vs' \<and> clear vs' = clear vs0 \<and>
           (\<forall>i<length vs0. grounded (vs' ! i) \<longleftrightarrow> supported vs0 i)"
  using assms
proof (induction "gridMap vs0" vs q h rule: bfs.induct)
  case (1 vs q h)
  note eq = bfs.simps [of "gridMap vs0" vs q h]
  note mk = markingD [OF "1.prems"(1)]
  note cl = mk(1)
  note len = clear_length [OF cl]
  show ?case
  proof (cases "h < length q")
    case False
    then have h: "h = length q" using "1.prems"(2) by simp
    have r: "bfs (gridMap vs0) vs q h = Some vs" using False eq by simp
    have sound: "supported vs0 i" if "i < length vs0" "grounded (vs ! i)" for i
      using that mk(3,5) by blast
    have complete: "grounded (vs ! i)" if "supported vs0 i" for i
      using that
    proof (induction rule: supported.induct)
      case (anchored i)
      then show ?case using mk(6) by blast
    next
      case (carried j d i)
      have j: "j < length vs0"
        using carried.hyps(1) by (cases rule: supported.cases) (auto dest: gridMap_range)
      then have "j \<in> set q" using carried.IH mk(5) by blast
      then obtain k where k: "k < length q" "q ! k = j" by (auto simp: in_set_conv_nth)
      then show ?case using "1.prems"(3) h carried.hyps(2,3) by blast
    qed
    show ?thesis using r cl sound complete by blast
  next
    case True
    let ?c = "q ! h"
    from True have "?c \<in> set q" by simp
    then have c: "?c < length vs0" "supported vs0 ?c" using mk(2,3) by blast+
    have cell: "cellOf (vs ! ?c) = cellOf (vs0 ! ?c)" using clear_fields(2) [OF cl c(1)] .
    from visits_marking [OF c cell "1.prems"(1) subset_refl] obtain vs1 q1 new where
      s1: "forEachM (visit (gridMap vs0) (vs ! ?c)) neighbors (vs, q) = Some (vs1, q1)"
      and m1: "marking vs0 vs1 q1" and p1: "q1 = q @ new"
      and g1: "\<forall>i<length vs0. grounded (vs ! i) \<longrightarrow> grounded (vs1 ! i)"
      and n1: "\<forall>d \<in> set neighbors. \<forall>i. gridMap vs0 (shift (cellOf (vs0 ! ?c)) d) = Some i \<longrightarrow>
                 grounded (vs1 ! i)"
      by blast
    have r: "bfs (gridMap vs0) vs q h = bfs (gridMap vs0) vs1 q1 (h + 1)"
      using True c(1) len s1 eq by (simp add: Let_def)
    have h1: "h + 1 \<le> length q1" using True p1 by simp
    have closed: "\<forall>k<h + 1. \<forall>d \<in> set neighbors. \<forall>i.
           gridMap vs0 (shift (cellOf (vs0 ! (q1 ! k))) d) = Some i \<longrightarrow> grounded (vs1 ! i)"
    proof (intro allI impI ballI)
      fix k d i
      assume k: "k < h + 1" and d: "d \<in> set neighbors"
        and a: "gridMap vs0 (shift (cellOf (vs0 ! (q1 ! k))) d) = Some i"
      have qk: "q1 ! k = q ! k" using k True p1 by (simp add: nth_append)
      have i: "i < length vs0" using a gridMap_range by blast
      show "grounded (vs1 ! i)"
      proof (cases "k = h")
        case True
        then show ?thesis using n1 d a qk by simp
      next
        case False
        then have "k < h" using k by simp
        then have "grounded (vs ! i)" using "1.prems"(3) d a qk by simp
        then show ?thesis using g1 i by simp
      qed
    qed
    have "\<exists>vs'. bfs (gridMap vs0) vs1 q1 (h + 1) = Some vs' \<and> clear vs' = clear vs0 \<and>
           (\<forall>i<length vs0. grounded (vs' ! i) \<longleftrightarrow> supported vs0 i)"
    proof (rule "1.hyps" [OF True refl _ s1 refl m1 h1 closed])
      show "q ! h < length vs" using c(1) len by simp
    qed
    then show ?thesis unfolding r .
  qed
qed

subsection \<open>The unsupported voxels start to fall\<close>

lemma forEachM_snoc:
  "forEachM f (as @ [a]) s = (case forEachM f as s of None \<Rightarrow> None | Some s' \<Rightarrow> f a s')"
  by (induction as arbitrary: s) (auto split: option.splits)

lemma filter_take_Suc:
  "k < length vs \<Longrightarrow>
   length (filter P (take (Suc k) vs)) = length (filter P (take k vs)) + (if P (vs ! k) then 1 else 0)"
  by (simp add: take_Suc_conv_app_nth)

lemma drops_upto:
  "k \<le> length (voxels s) \<Longrightarrow>
   \<exists>s'. forEachM (dropStep H) [0..<k] s = Some s' \<and>
     s' = s\<lparr>voxels := voxels s', drawn := drawn s'\<rparr> \<and>
     length (voxels s') = length (voxels s) \<and>
     drawn s' = drawn s + 6 * length (filter loose (take k (voxels s))) \<and>
     (\<forall>i<length (voxels s). voxels s' ! i =
        (if i < k \<and> loose (voxels s ! i)
         then kick H (drawn s + 6 * length (filter loose (take i (voxels s)))) (voxels s ! i)
         else voxels s ! i))"
proof (induction k)
  case 0
  then show ?case by simp
next
  case (Suc k)
  let ?vs = "voxels s"
  let ?cnt = "\<lambda>i. length (filter loose (take i ?vs))"
  from Suc obtain s1 where
    r1: "forEachM (dropStep H) [0..<k] s = Some s1"
    and e1: "s1 = s\<lparr>voxels := voxels s1, drawn := drawn s1\<rparr>"
    and l1: "length (voxels s1) = length ?vs"
    and d1: "drawn s1 = drawn s + 6 * ?cnt k"
    and n1: "\<forall>i<length ?vs. voxels s1 ! i =
        (if i < k \<and> loose (?vs ! i) then kick H (drawn s + 6 * ?cnt i) (?vs ! i) else ?vs ! i)"
    by auto
  have k: "k < length ?vs" using Suc.prems by simp
  have vk: "voxels s1 ! k = ?vs ! k" using n1 k by simp
  have step: "forEachM (dropStep H) [0..<Suc k] s = dropStep H k s1"
    using r1 by (simp add: forEachM_snoc)
  have lt: "i < Suc k \<longleftrightarrow> i < k" if "i \<noteq> k" for i using that by auto
  show ?case
  proof (cases "loose (?vs ! k)")
    case False
    then have "dropStep H k s1 = Some s1"
      using vk by (auto simp: dropStep_def loose_def Let_def)
    moreover have "drawn s1 = drawn s + 6 * ?cnt (Suc k)"
      using d1 False k by (simp add: filter_take_Suc)
    moreover have "voxels s1 ! i =
        (if i < Suc k \<and> loose (?vs ! i) then kick H (drawn s + 6 * ?cnt i) (?vs ! i) else ?vs ! i)"
      if i: "i < length ?vs" for i
    proof (cases "i = k")
      case True
      then show ?thesis using False vk by simp
    next
      case ne: False
      then show ?thesis using n1 i lt [OF ne] by simp
    qed
    ultimately show ?thesis unfolding step using e1 l1 by blast
  next
    case True
    let ?w = "(voxels s1)[k := kick H (drawn s1) (?vs ! k)]"
    let ?s2 = "s1\<lparr>voxels := ?w, drawn := drawn s1 + 6\<rparr>"
    have r2: "dropStep H k s1 = Some ?s2"
      using True vk k l1 by (simp add: dropStep_def loose_def triggerFalling_def Let_def)
    have e2: "?s2 = s\<lparr>voxels := voxels ?s2, drawn := drawn ?s2\<rparr>"
      by (subst e1) simp
    have l2: "length (voxels ?s2) = length ?vs" using l1 by simp
    have d2: "drawn ?s2 = drawn s + 6 * ?cnt (Suc k)"
      using d1 True k by (simp add: filter_take_Suc)
    have n2: "voxels ?s2 ! i =
        (if i < Suc k \<and> loose (?vs ! i) then kick H (drawn s + 6 * ?cnt i) (?vs ! i) else ?vs ! i)"
      if i: "i < length ?vs" for i
    proof (cases "i = k")
      case e: True
      then show ?thesis using True k l1 d1 by simp
    next
      case ne: False
      then have "voxels ?s2 ! i = voxels s1 ! i" by simp
      then show ?thesis using n1 i lt [OF ne] by simp
    qed
    show ?thesis unfolding step using r2 e2 l2 d2 n2 by blast
  qed
qed

subsection \<open>The whole pass\<close>

lemma supported_resting: "supported vs i \<Longrightarrow> i < length vs \<and> \<not> isFalling (vs ! i)"
  by (induction rule: supported.induct) (auto simp: anchor_def dest: gridMap_range)

lemma kick_grounded: "kick H k (v\<lparr>grounded := g\<rparr>) = kick H k v"
  by (simp add: kick_def)

lemma filter_take_index:
  "i \<le> length vs \<Longrightarrow>
   length (filter P (take i vs)) = length (filter (\<lambda>j. P (vs ! j)) [0..<i])"
proof (induction i)
  case 0
  then show ?case by simp
next
  case (Suc i)
  then show ?case by (simp add: take_Suc_conv_app_nth)
qed

lemma check_result:
  "\<exists>s'. checkStructuralIntegrity H s = Some s' \<and>
     s' = s\<lparr>voxels := voxels s', drawn := drawn s'\<rparr> \<and>
     length (voxels s') = length (voxels s) \<and>
     (\<forall>i<length (voxels s). voxels s' ! i = settle H s i)"
proof -
  let ?vs0 = "voxels s"
  let ?n = "length ?vs0"
  let ?vs1 = "clear ?vs0"
  let ?q = "filter (\<lambda>i. anchor (?vs1 ! i)) [0..<?n]"
  have len1: "length ?vs1 = ?n" by (simp add: clear_def)
  have nth1: "?vs1 ! i = (?vs0 ! i)\<lparr>grounded := False\<rparr>" if "i < ?n" for i
    using that by (simp add: clear_def)
  have anc1: "anchor (?vs1 ! i) = anchor (?vs0 ! i)" if "i < ?n" for i
    using nth1 [OF that] by (simp add: anchor_def)
  from anchors_upto [of ?n ?vs1] len1 obtain vs2 where
    f: "fold anchorStep [0..<?n] (?vs1, []) = (vs2, ?q)" and l2: "length vs2 = ?n"
    and n2: "\<forall>i<?n. vs2 ! i = (if i < ?n \<and> anchor (?vs1 ! i) then (?vs1 ! i)\<lparr>grounded := True\<rparr> else ?vs1 ! i)"
    by auto
  have v2: "vs2 ! i = (?vs0 ! i)\<lparr>grounded := anchor (?vs0 ! i)\<rparr>" if i: "i < ?n" for i
    using n2 i nth1 [OF i] anc1 [OF i] by simp
  have c2: "clear vs2 = clear ?vs0"
  proof (rule nth_equalityI)
    show "length (clear vs2) = length (clear ?vs0)" using l2 by (simp add: clear_def)
    fix i assume "i < length (clear vs2)"
    then have i: "i < ?n" using l2 by (simp add: clear_def)
    then show "clear vs2 ! i = clear ?vs0 ! i" using l2 v2 [OF i] by (simp add: clear_def)
  qed
  have g2: "grounded (vs2 ! i) \<longleftrightarrow> anchor (?vs0 ! i)" if i: "i < ?n" for i
    using v2 [OF i] by simp
  have q_iff: "i \<in> set ?q \<longleftrightarrow> i < ?n \<and> anchor (?vs0 ! i)" for i
    using anc1 by auto
  have mk: "marking ?vs0 vs2 ?q"
    unfolding marking_def
  proof (intro conjI ballI allI impI)
    show "clear vs2 = clear ?vs0" by (rule c2)
  next
    fix i assume "i \<in> set ?q"
    then show "i < ?n" using q_iff by blast
  next
    fix i assume "i \<in> set ?q"
    then show "supported ?vs0 i" using q_iff supported.anchored by blast
  next
    fix i assume i: "i < ?n" and g: "grounded (vs2 ! i)"
    then show "\<not> isFalling (?vs0 ! i)" using g2 [OF i] by (simp add: anchor_def)
  next
    fix i assume i: "i < ?n" and g: "grounded (vs2 ! i)"
    then show "i \<in> set ?q" using g2 [OF i] q_iff by blast
  next
    fix i assume i: "i < ?n" and "anchor (?vs0 ! i)"
    then show "grounded (vs2 ! i)" using g2 [OF i] by simp
  qed
  from bfs_marking [OF mk, of 0] obtain vs3 where
    b: "bfs (gridMap ?vs0) vs2 ?q 0 = Some vs3" and c3: "clear vs3 = clear ?vs0"
    and g3: "\<forall>i<?n. grounded (vs3 ! i) \<longleftrightarrow> supported ?vs0 i"
    by auto
  have l3: "length vs3 = ?n" using clear_length [OF c3] .
  have gm: "fold (mapStep vs2) [0..<?n] Map.empty = gridMap ?vs0"
    using gridMap_clear [OF c2] l2 by (simp add: gridMap_def)
  have f': "fold anchorStep [0..<?n] (map (\<lambda>v. v\<lparr>grounded := False\<rparr>) ?vs0, []) = (vs2, ?q)"
    using f by (simp add: clear_def)
  have chk: "checkStructuralIntegrity H s = forEachM (dropStep H) [0..<?n] (s\<lparr>voxels := vs3\<rparr>)"
    unfolding checkStructuralIntegrity_def by (simp add: f' l2 gm b l3)
  from drops_upto [of ?n "s\<lparr>voxels := vs3\<rparr>" H] l3 obtain s' where
    r: "forEachM (dropStep H) [0..<?n] (s\<lparr>voxels := vs3\<rparr>) = Some s'"
    and e: "s' = s\<lparr>voxels := vs3\<rparr>\<lparr>voxels := voxels s', drawn := drawn s'\<rparr>"
    and l: "length (voxels s') = ?n"
    and n: "\<forall>i<?n. voxels s' ! i =
        (if loose (vs3 ! i)
         then kick H (drawn s + 6 * length (filter loose (take i vs3))) (vs3 ! i)
         else vs3 ! i)"
    by auto
  have v3: "vs3 ! i = (?vs0 ! i)\<lparr>grounded := supported ?vs0 i\<rparr>" if i: "i < ?n" for i
    using clear_nth [OF c3 i] g3 i by simp
  have lo: "loose (vs3 ! i) \<longleftrightarrow> \<not> isFalling (?vs0 ! i) \<and> \<not> supported ?vs0 i" if i: "i < ?n" for i
    by (subst v3 [OF i]) (simp add: loose_def)
  have cnt: "length (filter loose (take i vs3)) = unsupportedBefore ?vs0 i" if i: "i < ?n" for i
  proof -
    have "length (filter loose (take i vs3)) = length (filter (\<lambda>j. loose (vs3 ! j)) [0..<i])"
      using i l3 by (intro filter_take_index) simp
    also have "filter (\<lambda>j. loose (vs3 ! j)) [0..<i] =
        filter (\<lambda>j. \<not> isFalling (?vs0 ! j) \<and> \<not> supported ?vs0 j) [0..<i]"
      using lo i by (intro filter_cong refl) simp
    finally show ?thesis by (simp add: unsupportedBefore_def)
  qed
  have fin: "voxels s' ! i = settle H s i" if i: "i < ?n" for i
  proof -
    have a: "voxels s' ! i =
        (if loose (vs3 ! i)
         then kick H (drawn s + 6 * unsupportedBefore ?vs0 i) (vs3 ! i) else vs3 ! i)"
      using n i cnt [OF i] by simp
    show ?thesis
    proof (cases "isFalling (?vs0 ! i)")
      case True
      then have "\<not> supported ?vs0 i" using supported_resting by blast
      then show ?thesis using a True lo [OF i] v3 [OF i] by (simp add: settle_def)
    next
      case False
      show ?thesis
      proof (cases "supported ?vs0 i")
        case True
        then show ?thesis using a False lo [OF i] v3 [OF i] by (simp add: settle_def)
      next
        case ns: False
        then have "voxels s' ! i =
            kick H (drawn s + 6 * unsupportedBefore ?vs0 i) ((?vs0 ! i)\<lparr>grounded := False\<rparr>)"
          using a False lo [OF i] v3 [OF i] by simp
        then show ?thesis using False ns by (simp add: settle_def kick_grounded)
      qed
    qed
  qed
  have "s' = s\<lparr>voxels := voxels s', drawn := drawn s'\<rparr>" by (subst e) simp
  then show ?thesis using chk r l fin by auto
qed

section \<open>Support, as the claim words it\<close>

lemma supported_connected:
  assumes "\<forall>i j. i < j \<and> j < length vs \<and> \<not> isFalling (vs ! i) \<and> \<not> isFalling (vs ! j) \<longrightarrow>
             cellOf (vs ! i) \<noteq> cellOf (vs ! j)"
  shows "supported vs k \<longleftrightarrow> connected vs k"
proof
  assume "supported vs k"
  then show "connected vs k"
  proof (induction rule: supported.induct)
    case (anchored i)
    then show ?case by (rule connected.ground)
  next
    case (carried j d i)
    from carried.hyps(3) have "i < length vs" "\<not> isFalling (vs ! i)"
      "cellOf (vs ! i) = shift (cellOf (vs ! j)) d"
      by (simp_all add: gridMap_iff)
    with carried.IH carried.hyps(2) show ?case by (intro connected.link [of vs j i d])
  qed
next
  assume "connected vs k"
  then show "supported vs k"
  proof (induction rule: connected.induct)
    case (ground i)
    then show ?case by (rule supported.anchored)
  next
    case (link j i d)
    have "\<forall>l. i < l \<and> l < length vs \<and> \<not> isFalling (vs ! l) \<longrightarrow>
            cellOf (vs ! l) \<noteq> shift (cellOf (vs ! j)) d"
    proof (intro allI impI)
      fix l assume l: "i < l \<and> l < length vs \<and> \<not> isFalling (vs ! l)"
      then have "cellOf (vs ! i) \<noteq> cellOf (vs ! l)" using assms link.hyps(3) by blast
      then show "cellOf (vs ! l) \<noteq> shift (cellOf (vs ! j)) d" using link.hyps(5) by simp
    qed
    then have "gridMap vs (shift (cellOf (vs ! j)) d) = Some i"
      using link.hyps(2,3,5) by (simp add: gridMap_iff)
    with link.IH link.hyps(4) show ?case by (rule supported.carried)
  qed
qed

lemma stack_cells:
  "cellOf (stack ! 0) = (0, - 11, 0)" "cellOf (stack ! 1) = (0, - 10, 0)"
  "cellOf (stack ! 2) = (0, - 10, 0)"
  "\<not> isFalling (stack ! 0)" "\<not> isFalling (stack ! 1)" "\<not> isFalling (stack ! 2)"
  "anchor (stack ! 0)" "\<not> anchor (stack ! 1)" "\<not> anchor (stack ! 2)" "length stack = 3"
  by (simp_all add: stack_def cube_def cellOf_def js_round_def anchor_def FLOOR_Y_def)

lemma stack_supported: "supported stack 0" "supported stack 2" "\<not> supported stack 1"
proof -
  show 0: "supported stack 0"
    by (rule supported.anchored) (simp_all add: stack_cells)
  have "gridMap stack (shift (cellOf (stack ! 0)) (0, 1, 0)) = Some 2"
    unfolding gridMap_iff by (auto simp: stack_cells)
  then show "supported stack 2"
    by (rule supported.carried [OF 0, rotated]) (simp add: neighbors_def)
  show "\<not> supported stack 1"
  proof
    assume "supported stack 1"
    then show False
    proof (cases rule: supported.cases)
      case anchored
      then show False by (simp add: stack_cells del: One_nat_def)
    next
      case (carried j d)
      from carried(3) have "cellOf (stack ! 1) = shift (cellOf (stack ! j)) d"
        and "\<forall>l. 1 < l \<and> l < length stack \<and> \<not> isFalling (stack ! l) \<longrightarrow>
               cellOf (stack ! l) \<noteq> shift (cellOf (stack ! j)) d"
        by (simp_all add: gridMap_iff)
      then have "1 < (2::nat) \<and> 2 < length stack \<and> \<not> isFalling (stack ! 2) \<longrightarrow>
               cellOf (stack ! 2) \<noteq> cellOf (stack ! 1)" by metis
      then show False by (simp add: stack_cells del: One_nat_def)
    qed
  qed
qed

lemma stack_connected: "connected stack 1"
proof -
  have "connected stack 0" by (rule connected.ground) (simp_all add: stack_cells)
  then show ?thesis
    by (rule connected.link [where d = "(0, 1, 0)"])
      (simp_all add: stack_cells neighbors_def del: One_nat_def)
qed

text \<open>
  C2, as the code has it. The pass always returns, and it makes of every voxel one of three
  things. A voxel that was falling only loses its mark. A resting voxel is marked grounded
  if and only if it is supported: it is a ground anchor (at rest, not higher than
  \<open>FLOOR_Y + 1.2\<close>), or the grid map holds it for one of the six cells next to the cell
  of a supported voxel. Every other resting voxel starts to fall, unmarked, with the
  velocities drawn from the random stream. The grid map holds for a cell the resting voxel
  of the highest slot whose rounded position is that cell. Where no two resting voxels
  share a cell, the supported voxels are the voxels connected to a ground anchor by a chain
  of resting voxels in adjoining cells.
\<close>

theorem integrity_pass:
  "(\<exists>s'. checkStructuralIntegrity H s = Some s' \<and>
      length (voxels s') = length (voxels s) \<and>
      (\<forall>i<length (voxels s). voxels s' ! i =
         (if isFalling (voxels s ! i) then (voxels s ! i)\<lparr>grounded := False\<rparr>
          else if supported (voxels s) i then (voxels s ! i)\<lparr>grounded := True\<rparr>
          else kick H (drawn s + 6 * unsupportedBefore (voxels s) i) (voxels s ! i)))) \<and>
   (gridMap vs c = Some i \<longleftrightarrow>
      i < length vs \<and> \<not> isFalling (vs ! i) \<and> cellOf (vs ! i) = c \<and>
      (\<forall>j. i < j \<and> j < length vs \<and> \<not> isFalling (vs ! j) \<longrightarrow> cellOf (vs ! j) \<noteq> c)) \<and>
   ((\<forall>i j. i < j \<and> j < length vs \<and> \<not> isFalling (vs ! i) \<and> \<not> isFalling (vs ! j) \<longrightarrow>
        cellOf (vs ! i) \<noteq> cellOf (vs ! j)) \<longrightarrow>
    supported vs k = connected vs k)"
proof -
  from check_result [of H s] obtain s' where
    "checkStructuralIntegrity H s = Some s'" "length (voxels s') = length (voxels s)"
    "\<forall>i<length (voxels s). voxels s' ! i = settle H s i"
    by blast
  then have "\<exists>s'. checkStructuralIntegrity H s = Some s' \<and>
      length (voxels s') = length (voxels s) \<and>
      (\<forall>i<length (voxels s). voxels s' ! i =
         (if isFalling (voxels s ! i) then (voxels s ! i)\<lparr>grounded := False\<rparr>
          else if supported (voxels s) i then (voxels s ! i)\<lparr>grounded := True\<rparr>
          else kick H (drawn s + 6 * unsupportedBefore (voxels s) i) (voxels s ! i)))"
    by (simp add: settle_def Let_def)
  then show ?thesis using gridMap_iff [of vs c i] supported_connected [of vs k] by blast
qed

theorem integrity_pass_witness:
  "(\<exists>s'. checkStructuralIntegrity exHost (engineOf stack) = Some s' \<and>
      length (voxels s') = 3 \<and>
      voxels s' ! 0 = (stack ! 0)\<lparr>grounded := True\<rparr> \<and>
      voxels s' ! 1 = kick exHost 0 (stack ! 1) \<and>
      voxels s' ! 2 = (stack ! 2)\<lparr>grounded := True\<rparr>) \<and>
   gridMap stack (0, - 10, 0) = Some 2 \<and>
   supported tower 1 = connected tower 1 \<and> connected tower 1"
proof -
  note t = integrity_pass [of exHost "engineOf stack" stack "(0, - 10, 0)" 2]
  have u: "unsupportedBefore stack 1 = 0"
    using stack_supported(1) by (simp add: unsupportedBefore_def)
  from t obtain s' where s': "checkStructuralIntegrity exHost (engineOf stack) = Some s'"
    "length (voxels s') = length (voxels (engineOf stack))"
    "\<forall>i<length (voxels (engineOf stack)). voxels s' ! i =
         (if isFalling (voxels (engineOf stack) ! i) then (voxels (engineOf stack) ! i)\<lparr>grounded := False\<rparr>
          else if supported (voxels (engineOf stack)) i then (voxels (engineOf stack) ! i)\<lparr>grounded := True\<rparr>
          else kick exHost (drawn (engineOf stack) + 6 * unsupportedBefore (voxels (engineOf stack)) i)
                 (voxels (engineOf stack) ! i))"
    by blast
  have v: "voxels (engineOf stack) = stack" "drawn (engineOf stack) = 0"
    by (simp_all add: engineOf_def)
  have "voxels s' ! 0 = (stack ! 0)\<lparr>grounded := True\<rparr>"
    using s'(3) [unfolded v] stack_supported(1) stack_cells(4,10) by simp
  moreover have "voxels s' ! 1 = kick exHost 0 (stack ! 1)"
    using s'(3) [unfolded v] stack_supported(3) stack_cells(5,10) u
    by (simp del: One_nat_def)
  moreover have "voxels s' ! 2 = (stack ! 2)\<lparr>grounded := True\<rparr>"
    using s'(3) [unfolded v] stack_supported(2) stack_cells(6,10) by simp
  moreover have "length (voxels s') = 3" using s'(2) v stack_cells(10) by simp
  ultimately have a: "\<exists>s'. checkStructuralIntegrity exHost (engineOf stack) = Some s' \<and>
      length (voxels s') = 3 \<and>
      voxels s' ! 0 = (stack ! 0)\<lparr>grounded := True\<rparr> \<and>
      voxels s' ! 1 = kick exHost 0 (stack ! 1) \<and>
      voxels s' ! 2 = (stack ! 2)\<lparr>grounded := True\<rparr>"
    using s'(1) by blast
  have "gridMap stack (0, - 10, 0) = Some 2 \<longleftrightarrow>
      2 < length stack \<and> \<not> isFalling (stack ! 2) \<and> cellOf (stack ! 2) = (0, - 10, 0) \<and>
      (\<forall>j. 2 < j \<and> j < length stack \<and> \<not> isFalling (stack ! j) \<longrightarrow> cellOf (stack ! j) \<noteq> (0, - 10, 0))"
    using t by blast
  then have b: "gridMap stack (0, - 10, 0) = Some 2" by (auto simp: stack_cells)
  have cells: "cellOf (tower ! 0) = (0, - 11, 0)" "cellOf (tower ! 1) = (0, - 10, 0)"
    "anchor (tower ! 0)" "\<not> isFalling (tower ! 1)" "length tower = 2"
    by (simp_all add: tower_def cube_def cellOf_def js_round_def anchor_def FLOOR_Y_def)
  have d: "\<forall>i j. i < j \<and> j < length tower \<and> \<not> isFalling (tower ! i) \<and> \<not> isFalling (tower ! j) \<longrightarrow>
        cellOf (tower ! i) \<noteq> cellOf (tower ! j)"
  proof (intro allI impI)
    fix i j :: nat
    assume "i < j \<and> j < length tower \<and> \<not> isFalling (tower ! i) \<and> \<not> isFalling (tower ! j)"
    then have "i = 0" "j = 1" using cells(5) by auto
    then show "cellOf (tower ! i) \<noteq> cellOf (tower ! j)" using cells(1,2) by simp
  qed
  from integrity_pass [of exHost "engineOf stack" tower "(0, 0, 0)" 0 1] d
  have c: "supported tower 1 = connected tower 1" by blast
  have "connected tower 0" by (rule connected.ground) (simp_all add: cells)
  then have e: "connected tower 1"
    by (rule connected.link [where d = "(0, 1, 0)"])
      (simp_all add: cells neighbors_def del: One_nat_def)
  from a b c e show ?thesis by blast
qed

text \<open>
  The claim C2 as it is written fails where two resting voxels share a cell. In
  \<open>stack\<close> the voxels 1 and 2 are both in the cell above the anchor 0, and the grid
  map holds voxel 2 for it: voxel 1 is at rest and connected to the anchor, and the pass
  makes it fall.
\<close>

theorem integrity_pass_counterexample:
  "\<not> isFalling (stack ! 1) \<and> connected stack 1 \<and>
   checkStructuralIntegrity exHost (engineOf stack) =
     Some ((engineOf [stack ! 0, kick exHost 0 (stack ! 1), stack ! 2])\<lparr>drawn := 6\<rparr>) \<and>
   isFalling (kick exHost 0 (stack ! 1)) \<and> \<not> grounded (kick exHost 0 (stack ! 1))"
proof -
  have "checkStructuralIntegrity exHost (engineOf stack) =
     Some ((engineOf [stack ! 0, kick exHost 0 (stack ! 1), stack ! 2])\<lparr>drawn := 6\<rparr>)"
    by (simp add: checkStructuralIntegrity_def engineOf_def stack_def cube_def anchorStep_def
      mapStep_def bfs.simps visit_def neighbors_def dropStep_def triggerFalling_def kick_def
      cellOf_def js_round_def FLOOR_Y_def Let_def exHost_def
      upt_rec [of _ "numeral _"] upt_rec [of 0 "Suc _"] upt_rec [of "Suc _" "Suc _"])
  then show ?thesis using stack_connected stack_cells(5) by (simp add: kick_def)
qed

section \<open>The two flags\<close>

subsection \<open>Each operation keeps the engine good\<close>

lemma good_frame:
  assumes "wellFormed s" and "length (voxels s') = length (voxels s)"
    and "rebuildTargets s' = rebuildTargets s"
    and "state s' = REBUILDING \<longrightarrow> state s = REBUILDING"
    and "\<forall>i<length (voxels s). vid (voxels s' ! i) = vid (voxels s ! i) \<and> consistent (voxels s' ! i)"
  shows "good s'"
proof -
  have "assigned s' = assigned s" using assms(2,3) by (simp add: assigned_def)
  then show ?thesis using assms unfolding good_def wellFormed_def by auto
qed

lemma goodD:
  assumes "good s"
  shows "wellFormed s" and "\<And>i. i < length (voxels s) \<Longrightarrow> consistent (voxels s ! i)"
    and "\<And>i. i < length (voxels s) \<Longrightarrow> vid (voxels s ! i) = i"
  using assms unfolding good_def wellFormed_def by blast+

lemma kick_keeps [simp]: "vid (kick H k v) = vid v" "consistent (kick H k v)"
  by (simp_all add: kick_def consistent_def)

lemma trigger_good:
  assumes "good s" and "i < length (voxels s)"
  shows "\<exists>s'. triggerFalling H i s = Some s' \<and> good s' \<and>
           length (voxels s') = length (voxels s) \<and> state s' = state s \<and> hasMesh s' = hasMesh s"
proof (cases "isFalling (voxels s ! i)")
  case True
  then have "triggerFalling H i s = Some s" using assms(2) by (simp add: triggerFalling_def)
  then show ?thesis using assms(1) by simp
next
  case False
  let ?s = "s\<lparr>voxels := (voxels s)[i := kick H (drawn s) (voxels s ! i)], drawn := drawn s + 6\<rparr>"
  have r: "triggerFalling H i s = Some ?s"
    using False assms(2) by (simp add: triggerFalling_def Let_def)
  have "vid (voxels ?s ! j) = vid (voxels s ! j) \<and> consistent (voxels ?s ! j)"
    if j: "j < length (voxels s)" for j
  proof (cases "j = i")
    case True
    then show ?thesis using j by simp
  next
    case False
    then show ?thesis using goodD(2) [OF assms(1) j] by simp
  qed
  then have "good ?s"
    by (intro good_frame [OF goodD(1) [OF assms(1)]]) simp_all
  then show ?thesis using r by simp
qed

lemma settle_keeps:
  "vid (settle H s i) = vid (voxels s ! i)" "consistent (settle H s i)"
proof -
  show "vid (settle H s i) = vid (voxels s ! i)" by (simp add: settle_def Let_def)
  show "consistent (settle H s i)"
  proof (cases "isFalling (voxels s ! i)")
    case True
    then show ?thesis by (simp add: settle_def consistent_def)
  next
    case False
    show ?thesis
    proof (cases "supported (voxels s) i")
      case True
      then show ?thesis using False by (simp add: settle_def consistent_def)
    next
      case ns: False
      then show ?thesis using False by (simp add: settle_def)
    qed
  qed
qed

lemma check_good:
  assumes "wellFormed s"
  shows "\<exists>s'. checkStructuralIntegrity H s = Some s' \<and> good s' \<and>
           length (voxels s') = length (voxels s) \<and> state s' = state s"
proof -
  from check_result [of H s] obtain s' where
    r: "checkStructuralIntegrity H s = Some s'"
    and e: "s' = s\<lparr>voxels := voxels s', drawn := drawn s'\<rparr>"
    and l: "length (voxels s') = length (voxels s)"
    and n: "\<forall>i<length (voxels s). voxels s' ! i = settle H s i" by blast
  have f: "rebuildTargets s' = rebuildTargets s" "state s' = state s" by (subst e, simp)+
  have "good s'"
    using n by (intro good_frame [OF assms l f(1)]) (simp_all add: f(2) settle_keeps)
  then show ?thesis using r l f(2) by blast
qed

lemma scatter_good:
  assumes "good s" and "i < length (voxels s)"
  shows "\<exists>s'. scatterStep H i s = Some s' \<and> good s' \<and>
           length (voxels s') = length (voxels s) \<and> state s' = state s"
proof -
  have id: "vid (voxels s ! i) = i" using goodD(3) [OF assms] .
  from trigger_good [OF assms, of H] obtain s1 where
    r1: "triggerFalling H i s = Some s1" and g1: "good s1"
    and l1: "length (voxels s1) = length (voxels s)" and st1: "state s1 = state s" by blast
  let ?v = "(voxels s1 ! i)\<lparr>vx := (random H (drawn s1) - 0.5) * 1.6,
      vy := random H (drawn s1 + 1) * 1.4, vz := (random H (drawn s1 + 2) - 0.5) * 1.6\<rparr>"
  let ?s = "s1\<lparr>voxels := (voxels s1)[i := ?v], drawn := drawn s1 + 3\<rparr>"
  have r: "scatterStep H i s = Some ?s"
    using r1 id by (simp add: scatterStep_def Let_def)
  have "vid (voxels ?s ! j) = vid (voxels s1 ! j) \<and> consistent (voxels ?s ! j)"
    if j: "j < length (voxels s1)" for j
  proof (cases "j = i")
    case True
    then show ?thesis using j goodD(2) [OF g1 j] by (simp add: consistent_def)
  next
    case False
    then show ?thesis using goodD(2) [OF g1 j] by simp
  qed
  then have "good ?s"
    by (intro good_frame [OF goodD(1) [OF g1]]) simp_all
  then show ?thesis using r l1 st1 by simp
qed

lemma scatter_loop:
  "good s \<Longrightarrow> \<forall>i \<in> set js. i < length (voxels s) \<Longrightarrow>
   \<exists>s'. forEachM (scatterStep H) js s = Some s' \<and> good s' \<and>
     length (voxels s') = length (voxels s) \<and> state s' = state s"
proof (induction js arbitrary: s)
  case Nil
  then show ?case by simp
next
  case (Cons i js)
  from scatter_good [OF Cons.prems(1), of i H] Cons.prems(2) obtain s1 where
    r1: "scatterStep H i s = Some s1" and g1: "good s1"
    and l1: "length (voxels s1) = length (voxels s)" and st1: "state s1 = state s" by auto
  from Cons.IH [OF g1] Cons.prems(2) l1 obtain s' where
    "forEachM (scatterStep H) js s1 = Some s'" "good s'"
    "length (voxels s') = length (voxels s1)" "state s' = state s1" by auto
  then show ?case using r1 l1 st1 by simp
qed

lemma dismantle_good:
  assumes "good s"
  shows "\<exists>s'. dismantle H s = Some s' \<and> good s' \<and> length (voxels s') = length (voxels s)"
proof (cases "state s = STABLE")
  case False
  then show ?thesis using assms by (simp add: dismantle_def)
next
  case True
  let ?s = "s\<lparr>state := DISMANTLING, stateLog := stateLog s @ [DISMANTLING]\<rparr>"
  have "good ?s"
    using goodD(2,3) [OF assms] by (intro good_frame [OF goodD(1) [OF assms]]) simp_all
  from scatter_loop [OF this, of "[0..<length (voxels s)]" H] True
  show ?thesis by (auto simp: dismantle_def)
qed

lemma plan_assigned:
  "i < length vs \<Longrightarrow> getAt (plan H vs ts) i \<noteq> None"
  using plan_entry [of i vs H ts] by (auto simp: getAt_def plan_nth(1))

lemma rebuild_good:
  assumes "good s"
  shows "good (rebuild H ts now s)"
proof -
  let ?s = "rebuild H ts now s"
  have v: "voxels ?s = voxels s" and t: "rebuildTargets ?s = plan H (voxels s) ts"
    by (simp_all add: rebuild_def Let_def)
  have "getAt (plan H (voxels s) ts) i \<noteq> None" if "i < length (voxels s)" for i
    using that by (rule plan_assigned)
  then have "assigned ?s"
    unfolding assigned_def v t list_all_iff by auto
  then show ?thesis
    using goodD(2,3) [OF assms] unfolding good_def wellFormed_def v by simp
qed

lemma load_good:
  "good (loadInitialModel H d s)" "length (voxels (loadInitialModel H d s)) = length d"
proof -
  let ?s = "loadInitialModel H d s"
  have st: "state ?s = STABLE" and l: "length (voxels ?s) = length d"
    by (simp_all add: loadInitialModel_def createVoxels_def Let_def)
  have "vid (voxels ?s ! i) = i \<and> consistent (voxels ?s ! i)" if "i < length d" for i
    using that by (simp add: loadInitialModel_def createVoxels_def Let_def nth_enumerate_eq
        consistent_def)
  then show "good ?s" unfolding good_def wellFormed_def using st l by simp
  show "length (voxels ?s) = length d" by (rule l)
qed

lemma click_good:
  assumes "good s" and "case hit of None \<Rightarrow> True | Some i \<Rightarrow> i < length (voxels s)"
  shows "\<exists>s'. onMouseClick H hit s = Some s' \<and> good s' \<and> length (voxels s') = length (voxels s)"
proof (cases "state s \<noteq> STABLE \<or> \<not> hasMesh s")
  case True
  then have "onMouseClick H hit s = Some s" by (auto simp: onMouseClick_def)
  then show ?thesis using assms(1) by simp
next
  case False
  show ?thesis
  proof (cases hit)
    case None
    then show ?thesis using assms(1) False by (simp add: onMouseClick_def)
  next
    case (Some i)
    then have i: "i < length (voxels s)" using assms(2) by simp
    from trigger_good [OF assms(1) i, of H] obtain s1 where
      r1: "triggerFalling H i s = Some s1" and g1: "good s1"
      and l1: "length (voxels s1) = length (voxels s)" by blast
    from check_good [OF goodD(1) [OF g1], of H] obtain s' where
      "checkStructuralIntegrity H s1 = Some s'" "good s'"
      "length (voxels s') = length (voxels s1)" by blast
    then show ?thesis using r1 l1 False Some by (simp add: onMouseClick_def)
  qed
qed

lemma fallStep_keeps: "vid (fallStep v) = vid v" "consistent (fallStep v) = consistent v"
proof -
  have g: "vid (gravity w) = vid w" and i: "vid (integrate w) = vid w"
    and b: "vid (bounce w) = vid w" and r: "vid (rest w) = vid w" for w
    by (simp_all add: gravity_def integrate_def bounce_def rest_def)
  show "vid (fallStep v) = vid v" by (simp add: fallStep_def Let_def g i b r)
  show "consistent (fallStep v) = consistent v"
    by (simp add: fallStep_def Let_def consistent_def)
qed

lemma ease_keeps:
  "vid (ease t v) = vid v" "consistent (ease t v) = consistent v"
  "vid (arrive t v) = vid v" "consistent (arrive t v)"
  by (simp_all add: ease_def arrive_def consistent_def Let_def)

lemma update_keeps:
  assumes "vid w = vid (vs ! i)" and "consistent (vs ! i) \<longrightarrow> consistent w"
  shows "\<forall>j<length vs. vid (vs[i := w] ! j) = vid (vs ! j) \<and>
           (consistent (vs ! j) \<longrightarrow> consistent (vs[i := w] ! j))"
proof (intro allI impI)
  fix j assume j: "j < length vs"
  show "vid (vs[i := w] ! j) = vid (vs ! j) \<and> (consistent (vs ! j) \<longrightarrow> consistent (vs[i := w] ! j))"
  proof (cases "j = i")
    case True
    then show ?thesis using j assms by simp
  next
    case False
    then show ?thesis by simp
  qed
qed

lemma easeStep_keeps:
  assumes "getAt ts i = Some t"
  shows "\<exists>vs' a'. easeStep e ts i (vs, a) = Some (vs', a') \<and> length vs' = length vs \<and>
           (\<forall>j<length vs. vid (vs' ! j) = vid (vs ! j) \<and>
              (consistent (vs ! j) \<longrightarrow> consistent (vs' ! j)))"
proof -
  let ?v = "ease t (vs ! i)"
  let ?far = "(x t - x ?v)\<^sup>2 + (y t - y ?v)\<^sup>2 + (z t - z ?v)\<^sup>2 > 0.01"
  consider (idle) "isRubble t \<or> of_int e < delay t"
    | (move) "\<not> isRubble t" "\<not> of_int e < delay t" ?far
    | (land) "\<not> isRubble t" "\<not> of_int e < delay t" "\<not> ?far"
    by blast
  then show ?thesis
  proof cases
    case idle
    then have "\<exists>a'. easeStep e ts i (vs, a) = Some (vs, a')"
      using assms by (auto simp: easeStep_def)
    then show ?thesis by auto
  next
    case move
    then have "easeStep e ts i (vs, a) = Some (vs[i := ?v], False)"
      using assms by (simp add: easeStep_def Let_def)
    moreover have "\<forall>j<length vs. vid (vs[i := ?v] ! j) = vid (vs ! j) \<and>
           (consistent (vs ! j) \<longrightarrow> consistent (vs[i := ?v] ! j))"
      by (rule update_keeps) (simp_all add: ease_keeps)
    ultimately show ?thesis by auto
  next
    case land
    then have "easeStep e ts i (vs, a) = Some (vs[i := arrive t ?v], a)"
      using assms by (simp add: easeStep_def Let_def)
    moreover have "\<forall>j<length vs. vid (vs[i := arrive t ?v] ! j) = vid (vs ! j) \<and>
           (consistent (vs ! j) \<longrightarrow> consistent (vs[i := arrive t ?v] ! j))"
      by (rule update_keeps) (simp_all add: ease_keeps)
    ultimately show ?thesis by auto
  qed
qed

lemma ease_loop_keeps:
  assumes "\<forall>i \<in> set js. getAt ts i \<noteq> None"
  shows "\<exists>vs' a'. forEachM (easeStep e ts) js (vs, a) = Some (vs', a') \<and> length vs' = length vs \<and>
           (\<forall>j<length vs. vid (vs' ! j) = vid (vs ! j) \<and>
              (consistent (vs ! j) \<longrightarrow> consistent (vs' ! j)))"
  using assms
proof (induction js arbitrary: vs a)
  case Nil
  then show ?case by simp
next
  case (Cons i js)
  then obtain t where t: "getAt ts i = Some t" by auto
  from easeStep_keeps [OF t, of e vs a] obtain vs1 a1 where
    s1: "easeStep e ts i (vs, a) = Some (vs1, a1)" and l1: "length vs1 = length vs"
    and k1: "\<forall>j<length vs. vid (vs1 ! j) = vid (vs ! j) \<and>
              (consistent (vs ! j) \<longrightarrow> consistent (vs1 ! j))" by blast
  from Cons.IH [of vs1 a1] Cons.prems obtain vs' a' where
    s2: "forEachM (easeStep e ts) js (vs1, a1) = Some (vs', a')" and l2: "length vs' = length vs1"
    and k2: "\<forall>j<length vs1. vid (vs' ! j) = vid (vs1 ! j) \<and>
              (consistent (vs1 ! j) \<longrightarrow> consistent (vs' ! j))" by auto
  have "forEachM (easeStep e ts) (i # js) (vs, a) = Some (vs', a')" using s1 s2 by simp
  moreover have "\<forall>j<length vs. vid (vs' ! j) = vid (vs ! j) \<and>
              (consistent (vs ! j) \<longrightarrow> consistent (vs' ! j))"
    using k1 k2 l1 by simp
  ultimately show ?case using l1 l2 by simp
qed

lemma physics_good:
  assumes "good s"
  shows "\<exists>s'. updatePhysics now s = Some s' \<and> good s' \<and> length (voxels s') = length (voxels s)"
proof (cases "state s = REBUILDING")
  case False
  let ?s = "s\<lparr>voxels := map fallStep (voxels s)\<rparr>"
  have r: "updatePhysics now s = Some ?s" using False by (simp add: updatePhysics_def)
  have "good ?s"
    using goodD(2) [OF assms]
    by (intro good_frame [OF goodD(1) [OF assms]]) (simp_all add: fallStep_keeps)
  then show ?thesis using r by simp
next
  case True
  then have "assigned s" using goodD(1) [OF assms] by (simp add: wellFormed_def)
  then have "\<forall>i \<in> set [0..<length (voxels s)]. getAt (rebuildTargets s) i \<noteq> None"
    by (simp add: assigned_def list_all_iff)
  from ease_loop_keeps [OF this, of "now - rebuildStartTime s" "voxels s" True]
  obtain vs' a' where
    run: "forEachM (easeStep (now - rebuildStartTime s) (rebuildTargets s))
            [0..<length (voxels s)] (voxels s, True) = Some (vs', a')"
    and l: "length vs' = length (voxels s)"
    and k: "\<forall>j<length (voxels s). vid (vs' ! j) = vid (voxels s ! j) \<and>
              (consistent (voxels s ! j) \<longrightarrow> consistent (vs' ! j))" by blast
  have k': "\<forall>j<length (voxels s). vid (vs' ! j) = vid (voxels s ! j) \<and> consistent (vs' ! j)"
    using k goodD(2) [OF assms] by simp
  show ?thesis
  proof (cases a')
    case True
    let ?s = "s\<lparr>voxels := vs', state := STABLE, stateLog := stateLog s @ [STABLE]\<rparr>"
    have r: "updatePhysics now s = Some ?s"
      using run True \<open>state s = REBUILDING\<close> by (simp add: updatePhysics_def Let_def)
    have "good ?s"
      using k' l by (intro good_frame [OF goodD(1) [OF assms]]) simp_all
    then show ?thesis using r l by simp
  next
    case False
    let ?s = "s\<lparr>voxels := vs'\<rparr>"
    have r: "updatePhysics now s = Some ?s"
      using run False \<open>state s = REBUILDING\<close> by (simp add: updatePhysics_def Let_def)
    have "good ?s"
      using k' l by (intro good_frame [OF goodD(1) [OF assms]]) simp_all
    then show ?thesis using r l by simp
  qed
qed

subsection \<open>Any allowed run\<close>

lemma exec_good:
  assumes "good s" and "allowed (length (voxels s)) (c # cs)"
  shows "\<exists>s'. exec H c s = Some s' \<and> good s' \<and> allowed (length (voxels s')) cs"
proof (cases c)
  case (TriggerFalling i)
  with trigger_good [OF assms(1), of i H] assms(2) show ?thesis by auto
next
  case CheckStructuralIntegrity
  with check_good [OF goodD(1) [OF assms(1)], of H] assms(2) show ?thesis by auto
next
  case Dismantle
  with dismantle_good [OF assms(1), of H] assms(2) show ?thesis by auto
next
  case (Rebuild ts now)
  have "voxels (rebuild H ts now s) = voxels s" by (simp add: rebuild_def Let_def)
  with Rebuild rebuild_good [OF assms(1), of H ts now] assms(2) show ?thesis by simp
next
  case (UpdatePhysics now)
  with physics_good [OF assms(1), of now] assms(2) show ?thesis by auto
next
  case (LoadInitialModel d)
  with load_good [of H d s] assms(2) show ?thesis by simp
next
  case (MouseClick hit)
  show ?thesis
  proof (cases hit)
    case None
    with MouseClick click_good [OF assms(1), of None H] assms(2) show ?thesis by auto
  next
    case (Some i)
    with MouseClick click_good [OF assms(1), of "Some i" H] assms(2) show ?thesis by auto
  qed
qed

lemma run_good:
  "good s \<Longrightarrow> allowed (length (voxels s)) cs \<Longrightarrow>
   \<exists>s'. forEachM (exec H) cs s = Some s' \<and> good s'"
proof (induction cs arbitrary: s)
  case Nil
  then show ?case by simp
next
  case (Cons c cs)
  from exec_good [OF Cons.prems, of H] obtain s1 where
    "exec H c s = Some s1" "good s1" "allowed (length (voxels s1)) cs" by blast
  with Cons.IH [of s1] show ?case by auto
qed

text \<open>
  C1. Start from any well-formed engine, whatever its flags. The integrity pass returns,
  and every allowed run of commands after it returns: loads, clicks, calls of
  \<^verbatim>\<open>triggerFalling\<close> and of the pass itself, dismantling, rebuilding and physics steps,
  in any order and number. After the pass and after the run no voxel is both falling and
  grounded.
\<close>

theorem flags_exclusive:
  assumes "wellFormed s" and "allowed (length (voxels s)) cs"
  shows "\<exists>s1 s'. checkStructuralIntegrity H s = Some s1 \<and> forEachM (exec H) cs s1 = Some s' \<and>
           list_all consistent (voxels s1) \<and> list_all consistent (voxels s')"
proof -
  from check_good [OF assms(1), of H] obtain s1 where
    a: "checkStructuralIntegrity H s = Some s1" and g1: "good s1"
    and l1: "length (voxels s1) = length (voxels s)" by blast
  from run_good [OF g1, of cs H] assms(2) l1 obtain s' where
    b: "forEachM (exec H) cs s1 = Some s'" and g: "good s'" by auto
  have "list_all consistent (voxels t)" if "good t" for t
    using goodD(2) [OF that] by (simp add: list_all_length)
  then show ?thesis using a b g1 g by blast
qed

theorem flags_exclusive_witness:
  "wellFormed muddled \<and> allowed (length (voxels muddled)) session \<and>
   \<not> list_all consistent (voxels muddled) \<and>
   (\<exists>s1 s'. checkStructuralIntegrity exHost muddled = Some s1 \<and>
      forEachM (exec exHost) session s1 = Some s' \<and>
      list_all consistent (voxels s1) \<and> list_all consistent (voxels s'))"
proof -
  have w: "wellFormed muddled"
    by (auto simp: wellFormed_def muddled_def engineOf_def cube_def less_Suc_eq)
  have a: "allowed (length (voxels muddled)) session"
    by (simp add: muddled_def engineOf_def session_def)
  have n: "\<not> list_all consistent (voxels muddled)"
    by (simp add: muddled_def engineOf_def cube_def consistent_def)
  from flags_exclusive [OF w a, of exHost] w a n show ?thesis by blast
qed

end
